theory Spec2Isabelle
  imports Complex_Main "HOL-Library.AList" "HOL-Library.Multiset" "HOL-Library.Sublist"
begin

section \<open>CityFlow dashboard: series merger, replay cursor and state stream\<close>

text \<open>
  A shallow embedding of three pieces of the CityFlow frontend:
  \<^item> \<open>mergeSeries\<close> of \<open>components/MetricsChart.tsx\<close>,
  \<^item> the cursor and timer of \<open>components/ReplayPlayer.tsx\<close>,
  \<^item> \<open>connectStateStream\<close> of \<open>lib/websocket.ts\<close>.

  A JavaScript \<open>number\<close> is modelled by a rational: every finite double is one, and the
  code computes with numbers only in the comparator \<open>a.t - b.t\<close>, whose sign is the sign
  of the exact difference. \<open>NaN\<close> and the infinities are outside the model (JSON cannot
  carry them).
\<close>

type_synonym number = rat

subsection \<open>\<open>lib/types.ts\<close>: metrics records\<close>

text \<open>
  A field typed \<open>number | null\<close> and marked optional holds a number, \<open>null\<close>, or is
  absent (\<open>undefined\<close>).
\<close>

datatype jsvalue = Undefined | Null | Number number

text \<open>
  \<open>interface MetricsRecord\<close>. The field \<open>t\<close> is named \<open>rec_t\<close> here.
\<close>

record MetricsRecord =
  rec_t :: number
  vehicle_count :: number
  avg_speed :: jsvalue
  avg_waiting :: jsvalue
  throughput :: jsvalue

text \<open>
  \<open>(record as Record<string, number | null>)[metric]\<close>: the property read by name. Only
  the declared data fields of the record are modelled; any other name reads
  \<open>undefined\<close>.
\<close>

definition getField :: "MetricsRecord \<Rightarrow> string \<Rightarrow> jsvalue" where
  "getField record metric =
     (if metric = ''t'' then Number (rec_t record)
      else if metric = ''vehicle_count'' then Number (vehicle_count record)
      else if metric = ''avg_speed'' then avg_speed record
      else if metric = ''avg_waiting'' then avg_waiting record
      else if metric = ''throughput'' then throughput record
      else Undefined)"

text \<open>\<open>value ?? d\<close>: the default replaces \<open>null\<close> and \<open>undefined\<close> only.\<close>

definition nullish :: "jsvalue \<Rightarrow> number \<Rightarrow> number" where
  "nullish v d = (case v of Number n \<Rightarrow> n | _ \<Rightarrow> d)"

subsection \<open>\<open>components/MetricsChart.tsx\<close>: \<open>mergeSeries\<close>\<close>

text \<open>
  A bucket \<open>{ t: number; [key: string]: number | null }\<close>: its \<open>t\<close> (named \<open>row_t\<close>)
  and its other properties as a map from property name to value. A property name written
  by \<open>mergeSeries\<close> always contains \<open>-\<close>, so it never collides with \<open>t\<close>.
\<close>

record MergedRow =
  row_t :: number
  cols :: "string \<rightharpoonup> number"

text \<open>The template string \<open>`${runId}-${metric}`\<close>.\<close>

definition column_key :: "string \<Rightarrow> string \<Rightarrow> string" where
  "column_key runId metric = runId @ ''-'' @ metric"

text \<open>
  The body of the inner \<open>forEach\<close>. \<open>byTime\<close> is a JavaScript \<open>Map\<close>, which keeps its
  keys in insertion order and leaves a key in place when it is set again: an association
  list under \<open>AList.update\<close>.
\<close>

definition accumulate ::
  "string \<Rightarrow> string \<Rightarrow> MetricsRecord \<Rightarrow> (number \<times> MergedRow) list \<Rightarrow> (number \<times> MergedRow) list" where
  "accumulate runId metric record byTime =
     (let bucket = (case map_of byTime (rec_t record) of
                      Some b \<Rightarrow> b
                    | None \<Rightarrow> \<lparr>row_t = rec_t record, cols = Map.empty\<rparr>);
          value = getField record metric;
          bucket' = bucket\<lparr>cols := (cols bucket)(column_key runId metric \<mapsto> nullish value 0)\<rparr>
      in AList.update (rec_t record) bucket' byTime)"

text \<open>
  The two nested \<open>forEach\<close> loops, from any starting map. \<open>series\<close> is the list
  \<open>Object.entries(series)\<close>: the runs in the object's iteration order.
\<close>

definition accumulated ::
  "(string \<times> MetricsRecord list) list \<Rightarrow> string \<Rightarrow> (number \<times> MergedRow) list \<Rightarrow> (number \<times> MergedRow) list" where
  "accumulated series metric byTime =
     fold (\<lambda>(runId, records) byTime. fold (accumulate runId metric) records byTime) series byTime"

text \<open>
  \<open>Array.from(byTime.values()).sort((a, b) => a.t - b.t)\<close>: a stable sort, ascending
  in \<open>t\<close>.
\<close>

definition mergeSeries :: "(string \<times> MetricsRecord list) list \<Rightarrow> string \<Rightarrow> MergedRow list" where
  "mergeSeries series metric = sort_key row_t (map snd (accumulated series metric []))"

text \<open>Every \<open>t\<close> of every record of every run, in iteration order.\<close>

definition timestamps :: "(string \<times> MetricsRecord list) list \<Rightarrow> number list" where
  "timestamps series = concat (map (\<lambda>(runId, records). map rec_t records) series)"

text \<open>
  The assignments \<open>bucket[key] = value ?? 0\<close> the loops perform, in order: the bucket's
  \<open>t\<close> and the property name, with the value written.
\<close>

definition writes_run ::
  "string \<Rightarrow> string \<Rightarrow> MetricsRecord list \<Rightarrow> ((number \<times> string) \<times> number) list" where
  "writes_run runId metric records =
     map (\<lambda>record. ((rec_t record, column_key runId metric), nullish (getField record metric) 0))
       records"

definition writes ::
  "(string \<times> MetricsRecord list) list \<Rightarrow> string \<Rightarrow> ((number \<times> string) \<times> number) list" where
  "writes series metric = concat (map (\<lambda>(runId, records). writes_run runId metric records) series)"

text \<open>The value of property \<open>k\<close> in the bucket stored under \<open>t'\<close>, if any.\<close>

definition cell :: "(number \<times> MergedRow) list \<Rightarrow> number \<Rightarrow> string \<Rightarrow> number option" where
  "cell byTime t' k = (case map_of byTime t' of None \<Rightarrow> None | Some b \<Rightarrow> cols b k)"

text \<open>Every bucket is stored under its own \<open>t\<close>.\<close>

definition keyed :: "(number \<times> MergedRow) list \<Rightarrow> bool" where
  "keyed byTime = list_all (\<lambda>(k, b). row_t b = k) byTime"

text \<open>
  Sample inputs. \<open>sample t' n\<close> is the record \<open>{t: t', vehicle_count: n}\<close>;
  \<open>waiting t' w\<close> is \<open>{t: t', vehicle_count: 1, avg_waiting: w}\<close>.
\<close>

definition sample :: "number \<Rightarrow> number \<Rightarrow> MetricsRecord" where
  "sample t' n = \<lparr>rec_t = t', vehicle_count = n, avg_speed = Undefined,
     avg_waiting = Undefined, throughput = Undefined\<rparr>"

definition waiting :: "number \<Rightarrow> jsvalue \<Rightarrow> MetricsRecord" where
  "waiting t' w = \<lparr>rec_t = t', vehicle_count = 1, avg_speed = Undefined,
     avg_waiting = w, throughput = Undefined\<rparr>"

definition two_runs :: "(string \<times> MetricsRecord list) list" where
  "two_runs = [(''runA'', [sample 0 5, sample 1 7]), (''runB'', [sample 1 3])]"

subsection \<open>\<open>components/ReplayPlayer.tsx\<close>: cursor and timer\<close>

text \<open>
  The component's props \<open>frames\<close>, \<open>selectedRun\<close> and \<open>loading\<close> and its two pieces
  of state, \<open>cursor\<close> and \<open>playing\<close>. The cursor is a JavaScript number; the
  positions here are whole numbers (the slider's \<open>step\<close> is 1).
\<close>

record 'f ReplayPlayer =
  frames :: "'f list"
  selectedRun :: "string option"
  loading :: bool
  cursor :: int
  playing :: bool

text \<open>
  The effect installs the 200 ms interval unless \<open>!playing || frames.length === 0\<close>,
  and clears it whenever \<open>playing\<close> or \<open>frames\<close> change.
\<close>

definition interval_installed :: "'f ReplayPlayer \<Rightarrow> bool" where
  "interval_installed s = (\<not> (\<not> playing s \<or> length (frames s) = 0))"

text \<open>
  One firing of the interval: \<open>setCursor(prev => prev >= frames.length - 1 ? 0 : prev + 1)\<close>.
  Without an installed interval nothing fires.
\<close>

definition tick :: "'f ReplayPlayer \<Rightarrow> 'f ReplayPlayer" where
  "tick s =
     (if interval_installed s
      then s\<lparr>cursor := (if cursor s \<ge> int (length (frames s)) - 1 then 0 else cursor s + 1)\<rparr>
      else s)"

text \<open>
  The Play/Pause button: \<open>setPlaying(value => !value)\<close>, disabled when
  \<open>!selectedRun || loading || frames.length === 0\<close>.
\<close>

definition play_disabled :: "'f ReplayPlayer \<Rightarrow> bool" where
  "play_disabled s = (selectedRun s = None \<or> selectedRun s = Some [] \<or> loading s \<or> length (frames s) = 0)"

definition toggle_play :: "'f ReplayPlayer \<Rightarrow> 'f ReplayPlayer" where
  "toggle_play s = (if play_disabled s then s else s\<lparr>playing := \<not> playing s\<rparr>)"

text \<open>
  \<open>handleRunChange\<close> with the page's \<open>handleLoad\<close> as \<open>onLoad\<close>: an empty
  selection is ignored. Otherwise the replay is fetched; when that succeeds (\<open>Some\<close>)
  the fetched frames replace the sequence and the run becomes the selected one, when it
  fails (\<open>None\<close>) both stay. Either way the player then does
  \<open>setCursor(0); setPlaying(false)\<close>.
\<close>

definition handleRunChange ::
  "string \<Rightarrow> 'f list option \<Rightarrow> 'f ReplayPlayer \<Rightarrow> 'f ReplayPlayer" where
  "handleRunChange runId fetched s =
     (if runId = [] then s
      else (case fetched of
              Some fs \<Rightarrow> s\<lparr>frames := fs, selectedRun := Some runId\<rparr>
            | None \<Rightarrow> s)\<lparr>loading := False, cursor := 0, playing := False\<rparr>)"

text \<open>
  Modelled from the spec: the \<open>Slider\<close> component (\<open>components/ui/slider\<close>) is not
  among the sources. The spec's contract for seeking is that a requested position is
  clamped into the range, never rejected; the range the player hands to the slider is
  \<open>min\<close> and \<open>max\<close>. \<open>Slider_value lo hi p\<close> is the value the slider reports for a
  requested position \<open>p\<close>.
\<close>

definition Slider_value :: "int \<Rightarrow> int \<Rightarrow> int \<Rightarrow> int" where
  "Slider_value lo hi p = max lo (min hi p)"

text \<open>
  The slider as the player renders it: \<open>min={0}\<close>, \<open>max={Math.max(frames.length - 1, 0)}\<close>,
  \<open>disabled={frames.length === 0}\<close> and \<open>onValueChange={(value) => setCursor(value[0])}\<close>.
  A disabled slider reports nothing.
\<close>

definition seek :: "int \<Rightarrow> 'f ReplayPlayer \<Rightarrow> 'f ReplayPlayer" where
  "seek p s =
     (if length (frames s) = 0 then s
      else s\<lparr>cursor := Slider_value 0 (max (int (length (frames s)) - 1) 0) p\<rparr>)"

text \<open>\<open>frames[cursor]\<close>: \<open>undefined\<close> outside the sequence.\<close>

definition currentFrame :: "'f ReplayPlayer \<Rightarrow> 'f option" where
  "currentFrame s =
     (if 0 \<le> cursor s \<and> cursor s < int (length (frames s))
      then Some (frames s ! nat (cursor s)) else None)"

text \<open>The player as first rendered with a loaded run.\<close>

definition loaded :: "string \<Rightarrow> 'f list \<Rightarrow> 'f ReplayPlayer" where
  "loaded runId fetched =
     handleRunChange runId (Some fetched)
       \<lparr>frames = [], selectedRun = None, loading = False, cursor = 0, playing = False\<rparr>"

subsection \<open>\<open>lib/websocket.ts\<close>: \<open>connectStateStream\<close>\<close>

text \<open>
  A parsed JSON value. An object is the list of its entries, one per property name.
\<close>

datatype json =
    JNull
  | JBool bool
  | JNumber number
  | JString string
  | JArray "json list"
  | JObject "(string \<times> json) list"

text \<open>
  The outcome of \<open>JSON.parse(event.data)\<close>: it throws, or returns a value.
\<close>

datatype payload = Unparseable | Parsed json

text \<open>JavaScript truthiness of a JSON value, as \<open>if (state)\<close> tests it.\<close>

fun truthy :: "json \<Rightarrow> bool" where
  "truthy JNull = False"
| "truthy (JBool b) = b"
| "truthy (JNumber n) = (n \<noteq> 0)"
| "truthy (JString s) = (s \<noteq> [])"
| "truthy (JArray xs) = True"
| "truthy (JObject fs) = True"

text \<open>
  \<open>payload?.state ?? payload\<close>: the \<open>state\<close> property when the payload is an object that
  has one other than \<open>null\<close>, else the payload itself.
\<close>

definition unwrap :: "json \<Rightarrow> json" where
  "unwrap p =
     (case p of
        JObject fs \<Rightarrow> (case map_of fs ''state'' of None \<Rightarrow> p | Some JNull \<Rightarrow> p | Some v \<Rightarrow> v)
      | _ \<Rightarrow> p)"

text \<open>\<open>WebSocket.readyState\<close>.\<close>

datatype readyState = CONNECTING | OPEN | CLOSING | CLOSED

text \<open>The two functions the session hands to \<open>window.setTimeout\<close>.\<close>

datatype callback = PollState | Reconnect

text \<open>
  What the session does to its pull requests, in order: it issues one, fires one's abort
  signal, or sees one settle.
\<close>

datatype wire = Issued nat | Aborted nat | Settled nat

text \<open>
  One session. The first five fields are the closure's variables, with timers,
  sockets and abort controllers named by numbers. The rest is the host's side:
  whether \<open>new WebSocket(wsEndpoint)\<close> succeeds for this endpoint, the ready state of every
  socket constructed so far, the timers that are set and have not fired, the
  \<open>fetchState\<close> calls that have not settled (each with its controller's number and whether
  its signal has been aborted), the next unused number, the listener's invocations, the
  console's lines, and the history of the pull requests.
\<close>

record StreamClient =
  socket :: "nat option"
  stopped :: bool
  fallbackTimer :: "nat option"
  reconnectTimer :: "nat option"
  controller :: "nat option"
  constructible :: bool
  sockets :: "readyState list"
  timers :: "(nat \<times> callback) list"
  requests :: "(nat \<times> bool) list"
  nextId :: nat
  delivered :: "json list"
  console :: "string list"
  history :: "wire list"

definition listener :: "json \<Rightarrow> StreamClient \<Rightarrow> StreamClient" where
  "listener v s = s\<lparr>delivered := delivered s @ [v]\<rparr>"

definition warn :: "string \<Rightarrow> StreamClient \<Rightarrow> StreamClient" where
  "warn msg s = s\<lparr>console := console s @ [msg]\<rparr>"

definition clearTimeout :: "nat \<Rightarrow> StreamClient \<Rightarrow> StreamClient" where
  "clearTimeout i s = s\<lparr>timers := filter (\<lambda>p. fst p \<noteq> i) (timers s)\<rparr>"

definition setTimeout :: "callback \<Rightarrow> StreamClient \<Rightarrow> StreamClient" where
  "setTimeout cb s = s\<lparr>timers := timers s @ [(nextId s, cb)], nextId := Suc (nextId s)\<rparr>"

text \<open>\<open>controller.abort()\<close>: the signal of request \<open>c\<close> fires, if it has not settled.\<close>

definition abort :: "nat \<Rightarrow> StreamClient \<Rightarrow> StreamClient" where
  "abort c s = s\<lparr>requests := map (\<lambda>p. (fst p, snd p \<or> fst p = c)) (requests s),
                  history := history s @ [Aborted c]\<rparr>"

definition stopFallback :: "StreamClient \<Rightarrow> StreamClient" where
  "stopFallback s =
     (let s1 = (case fallbackTimer s of
                  Some i \<Rightarrow> (clearTimeout i s)\<lparr>fallbackTimer := None\<rparr>
                | None \<Rightarrow> s)
      in case controller s1 of
           Some c \<Rightarrow> (abort c s1)\<lparr>controller := None\<rparr>
         | None \<Rightarrow> s1)"

text \<open>
  \<open>pollState\<close> up to its \<open>await\<close>: the previous controller is aborted, a new one is made
  and \<open>fetchState\<close> is called with its signal.
\<close>

definition pollState :: "StreamClient \<Rightarrow> StreamClient" where
  "pollState s =
     (if stopped s then s
      else let s1 = (case controller s of Some c \<Rightarrow> abort c s | None \<Rightarrow> s);
               c = nextId s1
           in s1\<lparr>controller := Some c, requests := requests s1 @ [(c, False)],
                  nextId := Suc c, history := history s1 @ [Issued c]\<rparr>)"

text \<open>
  \<open>pollState\<close> after its \<open>await\<close>: request \<open>c\<close> has settled with \<open>Some\<close> state (or
  \<open>null\<close>), or has thrown (\<open>None\<close>). Then the next poll is scheduled.
\<close>

definition pollState_resumed :: "nat \<Rightarrow> json option \<Rightarrow> StreamClient \<Rightarrow> StreamClient" where
  "pollState_resumed c outcome s =
     (let s1 = s\<lparr>requests := filter (\<lambda>p. fst p \<noteq> c) (requests s),
                  history := history s @ [Settled c]\<rparr>;
          s2 = (case outcome of
                  Some state \<Rightarrow> (if truthy state then listener state s1 else s1)
                | None \<Rightarrow> warn ''State fallback request failed'' s1)
      in (setTimeout PollState s2)\<lparr>fallbackTimer := Some (nextId s2)\<rparr>)"

definition ensureFallback :: "StreamClient \<Rightarrow> StreamClient" where
  "ensureFallback s = (if fallbackTimer s = None then pollState s else s)"

definition scheduleReconnect :: "StreamClient \<Rightarrow> StreamClient" where
  "scheduleReconnect s =
     (if reconnectTimer s \<noteq> None \<or> stopped s then s
      else (setTimeout Reconnect s)\<lparr>reconnectTimer := Some (nextId s)\<rparr>)"

definition connectSocket :: "StreamClient \<Rightarrow> StreamClient" where
  "connectSocket s =
     (if stopped s then s
      else if \<not> constructible s
      then scheduleReconnect (ensureFallback (warn ''Unable to open WebSocket'' s))
      else s\<lparr>socket := Some (length (sockets s)), sockets := sockets s @ [CONNECTING]\<rparr>)"

text \<open>The four handlers \<open>connectSocket\<close> installs on the socket.\<close>

definition onopen :: "StreamClient \<Rightarrow> StreamClient" where
  "onopen s = stopFallback s"

definition onmessage :: "payload \<Rightarrow> StreamClient \<Rightarrow> StreamClient" where
  "onmessage data s =
     (case data of
        Unparseable \<Rightarrow> warn ''Failed to parse state payload'' s
      | Parsed p \<Rightarrow> (let state = unwrap p in if truthy state then listener state s else s))"

definition onerror :: "StreamClient \<Rightarrow> StreamClient" where
  "onerror s = ensureFallback (warn ''State stream error'' s)"

definition onclose :: "StreamClient \<Rightarrow> StreamClient" where
  "onclose s = scheduleReconnect (ensureFallback s)"

text \<open>
  \<open>WebSocket.close()\<close>: a socket that is connecting or open starts closing; its close
  event comes later.
\<close>

definition close :: "nat \<Rightarrow> StreamClient \<Rightarrow> StreamClient" where
  "close i s =
     (if i < length (sockets s) \<and> (sockets s ! i = CONNECTING \<or> sockets s ! i = OPEN)
      then s\<lparr>sockets := (sockets s)[i := CLOSING]\<rparr> else s)"

definition cleanup :: "StreamClient \<Rightarrow> StreamClient" where
  "cleanup s =
     (let s1 = stopFallback (s\<lparr>stopped := True\<rparr>);
          s2 = (case reconnectTimer s1 of
                  Some i \<Rightarrow> (clearTimeout i s1)\<lparr>reconnectTimer := None\<rparr>
                | None \<Rightarrow> s1)
      in case socket s2 of Some i \<Rightarrow> close i s2 | None \<Rightarrow> s2)"

text \<open>
  \<open>connectStateStream(listener)\<close> in a browser, up to its \<open>return cleanup\<close>.
\<close>

definition connectStateStream :: "bool \<Rightarrow> StreamClient" where
  "connectStateStream ok =
     connectSocket
       \<lparr>socket = None, stopped = False, fallbackTimer = None, reconnectTimer = None,
        controller = None, constructible = ok, sockets = [], timers = [], requests = [],
        nextId = 0, delivered = [], console = [], history = []\<rparr>"

text \<open>
  What the host can do to a session, one event at a time.
  \<^item> \<open>SocketOpen i\<close>: socket \<open>i\<close>, connecting, opens.
  \<^item> \<open>SocketMessage i data\<close>: the open socket \<open>i\<close> receives a message. A socket that is
    not open dispatches no message event.
  \<^item> \<open>SocketError i\<close>: the connection of socket \<open>i\<close> fails: it is closed, and its error
    event and then its close event are dispatched.
  \<^item> \<open>SocketClose i\<close>: socket \<open>i\<close> closes cleanly: its close event is dispatched.
  \<^item> \<open>TimerFired k\<close>: the pending timer \<open>k\<close> fires. Delays are not modelled: any pending
    timer may fire.
  \<^item> \<open>FetchResolved c v\<close>: \<open>fetchState\<close> of request \<open>c\<close> returns \<open>v\<close>. An aborted
    request does not resolve: \<open>fetch\<close> rejects it.
  \<^item> \<open>FetchRejected c\<close>: \<open>fetchState\<close> of request \<open>c\<close> throws (the request failed or
    was aborted).
  \<^item> \<open>Detach\<close>: the caller invokes the returned \<open>cleanup\<close>.
\<close>

datatype event =
    SocketOpen nat
  | SocketMessage nat payload
  | SocketError nat
  | SocketClose nat
  | TimerFired nat
  | FetchResolved nat json
  | FetchRejected nat
  | Detach

definition socket_is :: "StreamClient \<Rightarrow> nat \<Rightarrow> readyState \<Rightarrow> bool" where
  "socket_is s i st = (i < length (sockets s) \<and> sockets s ! i = st)"

definition set_socket :: "nat \<Rightarrow> readyState \<Rightarrow> StreamClient \<Rightarrow> StreamClient" where
  "set_socket i st s = s\<lparr>sockets := (sockets s)[i := st]\<rparr>"

text \<open>One event. \<open>None\<close>: the host cannot do this in this state.\<close>

fun step :: "StreamClient \<Rightarrow> event \<Rightarrow> StreamClient option" where
  "step s (SocketOpen i) =
     (if socket_is s i CONNECTING then Some (onopen (set_socket i OPEN s)) else None)"
| "step s (SocketMessage i data) =
     (if socket_is s i OPEN then Some (onmessage data s) else None)"
| "step s (SocketError i) =
     (if i < length (sockets s) \<and> \<not> socket_is s i CLOSED
      then Some (onclose (onerror (set_socket i CLOSED s))) else None)"
| "step s (SocketClose i) =
     (if i < length (sockets s) \<and> \<not> socket_is s i CLOSED
      then Some (onclose (set_socket i CLOSED s)) else None)"
| "step s (TimerFired k) =
     (case map_of (timers s) k of
        None \<Rightarrow> None
      | Some PollState \<Rightarrow> Some (pollState (clearTimeout k s))
      | Some Reconnect \<Rightarrow> Some (connectSocket ((clearTimeout k s)\<lparr>reconnectTimer := None\<rparr>)))"
| "step s (FetchResolved c v) =
     (if map_of (requests s) c = Some False then Some (pollState_resumed c (Some v) s) else None)"
| "step s (FetchRejected c) =
     (if map_of (requests s) c \<noteq> None then Some (pollState_resumed c None s) else None)"
| "step s Detach = Some (cleanup s)"

text \<open>A sequence of events.\<close>

fun run :: "StreamClient \<Rightarrow> event list \<Rightarrow> StreamClient option" where
  "run s [] = Some s"
| "run s (e # es) = (case step s e of None \<Rightarrow> None | Some s' \<Rightarrow> run s' es)"

text \<open>
  The requests in flight after a history of issues, aborts and settlements: issued,
  and neither aborted nor settled since.
\<close>

fun apply_wire :: "wire \<Rightarrow> nat list \<Rightarrow> nat list" where
  "apply_wire (Issued c) cs = cs @ [c]"
| "apply_wire (Aborted c) cs = removeAll c cs"
| "apply_wire (Settled c) cs = removeAll c cs"

definition in_flight :: "wire list \<Rightarrow> nat list" where
  "in_flight h = fold apply_wire h []"

text \<open>At every instant of a history, at most one request is in flight.\<close>

definition never_two :: "wire list \<Rightarrow> bool" where
  "never_two h = list_all (\<lambda>p. length (in_flight p) \<le> 1) (prefixes h)"

text \<open>
  The controllers of the outstanding requests whose abort signal has not fired.
\<close>

definition live :: "(nat \<times> bool) list \<Rightarrow> nat list" where
  "live rs = map fst (filter (\<lambda>p. \<not> snd p) rs)"

text \<open>
  What ties the session's variables to its requests: the history accounts for the
  requests whose signal has not fired, there is at most one of them, and it is the one
  \<open>controller\<close> holds.
\<close>

definition poll_inv :: "StreamClient \<Rightarrow> bool" where
  "poll_inv s =
     (in_flight (history s) = live (requests s) \<and>
      list_all (\<lambda>p. snd p \<or> controller s = Some (fst p)) (requests s) \<and>
      length (live (requests s)) \<le> 1 \<and>
      never_two (history s))"

text \<open>The pending timers that would reconnect, by number.\<close>

definition reconnects :: "StreamClient \<Rightarrow> nat list" where
  "reconnects s = map fst (filter (\<lambda>p. snd p = Reconnect) (timers s))"

text \<open>
  What ties the session's variables to its sockets: every socket but the newest is
  closed, \<open>socket\<close> holds the newest, every pending reconnect timer is the one
  \<open>reconnectTimer\<close> holds, and while one is pending every socket is closed.
\<close>

definition socket_inv :: "StreamClient \<Rightarrow> bool" where
  "socket_inv s =
     (list_all (\<lambda>st. st = CLOSED) (butlast (sockets s)) \<and>
      socket s = (if sockets s = [] then None else Some (length (sockets s) - 1)) \<and>
      list_all (\<lambda>k. reconnectTimer s = Some k) (reconnects s) \<and>
      (reconnects s = [] \<or> list_all (\<lambda>st. st = CLOSED) (sockets s)))"

text \<open>
  \<open>calm s' s\<close>: going from \<open>s\<close> to \<open>s'\<close> touched no socket, none of \<open>socket\<close>,
  \<open>reconnectTimer\<close> and \<open>stopped\<close>, and set no reconnect timer.
\<close>

definition calm :: "StreamClient \<Rightarrow> StreamClient \<Rightarrow> bool" where
  "calm s' s =
     (sockets s' = sockets s \<and> socket s' = socket s \<and>
      reconnectTimer s' = reconnectTimer s \<and> stopped s' = stopped s \<and>
      set (reconnects s') \<subseteq> set (reconnects s))"

text \<open>
  A session after \<open>cleanup\<close>: stopped, no socket open or connecting, every
  outstanding request aborted.
\<close>

definition detached :: "StreamClient \<Rightarrow> bool" where
  "detached s =
     (stopped s \<and>
      list_all (\<lambda>st. st = CLOSING \<or> st = CLOSED) (sockets s) \<and>
      list_all snd (requests s))"

section \<open>Properties of \<open>mergeSeries\<close>\<close>

subsection \<open>The accumulation loop\<close>

lemma map_of_accumulate:
  "map_of (accumulate runId metric record byTime) =
     (map_of byTime)(rec_t record \<mapsto>
        (case map_of byTime (rec_t record) of Some b \<Rightarrow> b
         | None \<Rightarrow> \<lparr>row_t = rec_t record, cols = Map.empty\<rparr>)
        \<lparr>cols := (cols (case map_of byTime (rec_t record) of Some b \<Rightarrow> b
         | None \<Rightarrow> \<lparr>row_t = rec_t record, cols = Map.empty\<rparr>))
           (column_key runId metric \<mapsto> nullish (getField record metric) 0)\<rparr>)"
  by (simp add: accumulate_def Let_def update_conv')

lemma cell_accumulate:
  "cell (accumulate runId metric record byTime) t' k =
     (if t' = rec_t record \<and> k = column_key runId metric
      then Some (nullish (getField record metric) 0) else cell byTime t' k)"
  by (simp add: cell_def map_of_accumulate split: option.splits)

lemma keys_accumulate:
  "fst ` set (accumulate runId metric record byTime) = insert (rec_t record) (fst ` set byTime)"
  by (simp add: accumulate_def Let_def dom_update)

lemma distinct_accumulate:
  "distinct (map fst byTime) \<Longrightarrow> distinct (map fst (accumulate runId metric record byTime))"
  by (simp add: accumulate_def Let_def distinct_update)

lemma keyed_update:
  "keyed byTime \<Longrightarrow> row_t b = k \<Longrightarrow> keyed (AList.update k b byTime)"
  by (induction byTime) (auto simp: keyed_def)

lemma keyed_lookup: "keyed byTime \<Longrightarrow> map_of byTime k = Some b \<Longrightarrow> row_t b = k"
  by (induction byTime) (auto simp: keyed_def split: if_splits)

lemma keyed_accumulate:
  "keyed byTime \<Longrightarrow> keyed (accumulate runId metric record byTime)"
  unfolding accumulate_def Let_def
  by (rule keyed_update) (auto split: option.splits dest: keyed_lookup)

lemma cell_fold_run:
  "cell (fold (accumulate runId metric) records byTime) t' k =
     (case map_of (rev (writes_run runId metric records)) (t', k) of
        Some v \<Rightarrow> Some v | None \<Rightarrow> cell byTime t' k)"
proof (induction records arbitrary: byTime)
  case Nil
  show ?case by (simp add: writes_run_def)
next
  case (Cons r rs)
  show ?case
    by (simp add: Cons.IH cell_accumulate writes_run_def map_of_append map_add_def
        split: option.splits)
qed


lemma keys_fold_run:
  "fst ` set (fold (accumulate runId metric) records byTime) = fst ` set byTime \<union> rec_t ` set records"
  by (induction records arbitrary: byTime) (auto simp: keys_accumulate)

lemma distinct_fold_run:
  "distinct (map fst byTime) \<Longrightarrow> distinct (map fst (fold (accumulate runId metric) records byTime))"
  by (induction records arbitrary: byTime) (auto simp: distinct_accumulate)

lemma keyed_fold_run:
  "keyed byTime \<Longrightarrow> keyed (fold (accumulate runId metric) records byTime)"
  by (induction records arbitrary: byTime) (auto simp: keyed_accumulate)

lemma cell_accumulated:
  "cell (accumulated series metric byTime) t' k =
     (case map_of (rev (writes series metric)) (t', k) of
        Some v \<Rightarrow> Some v | None \<Rightarrow> cell byTime t' k)"
proof (induction series arbitrary: byTime)
  case Nil
  show ?case by (simp add: writes_def accumulated_def)
next
  case (Cons p ps)
  obtain runId records where p: "p = (runId, records)" by (cases p)
  have step: "accumulated (p # ps) metric byTime =
      accumulated ps metric (fold (accumulate runId metric) records byTime)"
    by (simp add: accumulated_def p)
  have w: "writes (p # ps) metric = writes_run runId metric records @ writes ps metric"
    by (simp add: writes_def p)
  show ?case
    by (simp add: step w Cons.IH cell_fold_run map_of_append map_add_def split: option.splits)
qed

lemma keys_accumulated:
  "fst ` set (accumulated series metric byTime) = fst ` set byTime \<union> set (timestamps series)"
proof (induction series arbitrary: byTime)
  case Nil
  show ?case by (simp add: timestamps_def accumulated_def)
next
  case (Cons p ps)
  obtain runId records where p: "p = (runId, records)" by (cases p)
  have step: "accumulated (p # ps) metric byTime =
      accumulated ps metric (fold (accumulate runId metric) records byTime)"
    by (simp add: accumulated_def p)
  have ts: "timestamps (p # ps) = map rec_t records @ timestamps ps"
    by (simp add: timestamps_def p)
  show ?case
    unfolding step ts Cons.IH keys_fold_run by auto
qed

lemma distinct_accumulated:
  "distinct (map fst byTime) \<Longrightarrow> distinct (map fst (accumulated series metric byTime))"
  unfolding accumulated_def
  by (induction series arbitrary: byTime) (auto simp: distinct_fold_run)

lemma keyed_accumulated:
  "keyed byTime \<Longrightarrow> keyed (accumulated series metric byTime)"
  unfolding accumulated_def
  by (induction series arbitrary: byTime) (auto simp: keyed_fold_run)

lemma buckets_by_key:
  assumes "distinct (map fst byTime)" "keyed byTime"
  shows "map snd byTime = map (\<lambda>t'. \<lparr>row_t = t', cols = cell byTime t'\<rparr>) (map fst byTime)"
proof -
  have "snd p = \<lparr>row_t = fst p, cols = cell byTime (fst p)\<rparr>" if "p \<in> set byTime" for p
  proof -
    obtain k b where p: "p = (k, b)" by (cases p)
    have look: "map_of byTime k = Some b"
      using assms(1) that p by simp
    have "row_t b = k" using keyed_lookup [OF assms(2) look] .
    moreover have "cell byTime k = cols b" by (simp add: cell_def look fun_eq_iff)
    ultimately show ?thesis by (simp add: p)
  qed
  then show ?thesis by simp
qed

lemma sort_key_section:
  assumes "\<And>x. f (g x) = x"
  shows "sort_key f (map g xs) = map g (sort xs)"
proof -
  have ins: "insort_key f (g x) (map g ys) = map g (insort x ys)" for x ys
    by (induction ys) (simp_all add: assms)
  show ?thesis
    by (induction xs) (simp_all add: ins)
qed

lemma mergeSeries_accumulated:
  "mergeSeries series metric = sort_key row_t (map snd (accumulated series metric []))"
  by (simp add: mergeSeries_def)

lemma mergeSeries_rows:
  "mergeSeries series metric =
     map (\<lambda>t'. \<lparr>row_t = t', cols = (\<lambda>k. map_of (rev (writes series metric)) (t', k))\<rparr>)
       (sorted_list_of_set (set (timestamps series)))"
proof -
  let ?bt = "accumulated series metric []"
  have d: "distinct (map fst ?bt)" by (rule distinct_accumulated) simp
  have k: "keyed ?bt" by (rule keyed_accumulated) (simp add: keyed_def)
  have e: "cell [] t' k = None" for t' k by (simp add: cell_def)
  have c: "cell ?bt t' = (\<lambda>k. map_of (rev (writes series metric)) (t', k))" for t'
    by (simp add: fun_eq_iff cell_accumulated e split: option.splits)
  have ks: "set (map fst ?bt) = set (timestamps series)"
    using keys_accumulated [of series metric "[]"] by simp
  have s: "sort (map fst ?bt) = sorted_list_of_set (set (timestamps series))"
    using d ks by (metis sorted_list_of_set_sort_remdups distinct_remdups_id)
  have "mergeSeries series metric =
      sort_key row_t (map (\<lambda>t'. \<lparr>row_t = t', cols = cell ?bt t'\<rparr>) (map fst ?bt))"
    unfolding mergeSeries_accumulated by (subst buckets_by_key [OF d k]) (rule refl)
  also have "\<dots> = map (\<lambda>t'. \<lparr>row_t = t', cols = cell ?bt t'\<rparr>) (sort (map fst ?bt))"
    by (rule sort_key_section) simp
  finally show ?thesis
    by (simp only: s c)
qed

subsection \<open>Which write a cell keeps\<close>

lemma column_key_inject: "column_key r metric = column_key r' metric \<longleftrightarrow> r = r'"
  by (simp add: column_key_def)

lemma map_of_rev_last:
  "map_of (rev ws) x =
     (if filter (\<lambda>p. fst p = x) ws = [] then None
      else Some (snd (last (filter (\<lambda>p. fst p = x) ws))))"
  by (induction ws rule: rev_induct) auto

lemma filter_writes_run:
  "filter (\<lambda>p. fst p = (t', column_key r metric)) (writes_run runId metric records) =
     (if r = runId then writes_run runId metric (filter (\<lambda>x. rec_t x = t') records) else [])"
  by (induction records) (auto simp: writes_run_def column_key_inject)

lemma filter_writes_absent:
  "k \<notin> (\<lambda>r. column_key r metric) ` fst ` set series \<Longrightarrow>
     filter (\<lambda>p. fst p = (t', k)) (writes series metric) = []"
  by (induction series) (auto simp: writes_def writes_run_def filter_empty_conv)

lemma filter_writes_present:
  "distinct (map fst series) \<Longrightarrow> (runId, records) \<in> set series \<Longrightarrow>
     filter (\<lambda>p. fst p = (t', column_key runId metric)) (writes series metric) =
       writes_run runId metric (filter (\<lambda>x. rec_t x = t') records)"
proof (induction series)
  case Nil
  then show ?case by simp
next
  case (Cons p ps)
  obtain r recs where p: "p = (r, recs)" by (cases p)
  have w: "writes (p # ps) metric = writes_run r metric recs @ writes ps metric"
    by (simp add: writes_def p)
  show ?case
  proof (cases "r = runId")
    case True
    with Cons.prems p have absent: "runId \<notin> fst ` set ps"
      by simp
    then have "(runId, records) \<notin> set ps"
      by (metis fst_conv image_eqI)
    with Cons.prems p have same: "recs = records"
      by simp
    have "column_key runId metric \<notin> (\<lambda>r. column_key r metric) ` fst ` set ps"
      using absent by (simp add: image_iff column_key_inject)
    then have "filter (\<lambda>p. fst p = (t', column_key runId metric)) (writes ps metric) = []"
      by (rule filter_writes_absent)
    then show ?thesis
      by (simp add: w True same filter_writes_run)
  next
    case False
    with Cons.prems p have "(runId, records) \<in> set ps" "distinct (map fst ps)"
      by auto
    then show ?thesis
      using False by (simp add: w filter_writes_run Cons.IH)
  qed
qed

lemma lookup_writes_present:
  assumes "distinct (map fst series)" "(runId, records) \<in> set series"
  shows "map_of (rev (writes series metric)) (t', column_key runId metric) =
     (if filter (\<lambda>x. rec_t x = t') records = [] then None
      else Some (nullish (getField (last (filter (\<lambda>x. rec_t x = t') records)) metric) 0))"
  unfolding map_of_rev_last filter_writes_present [OF assms]
  by (simp add: writes_run_def last_map)

lemma lookup_writes_absent:
  "k \<notin> (\<lambda>r. column_key r metric) ` fst ` set series \<Longrightarrow>
     map_of (rev (writes series metric)) (t', k) = None"
  by (simp add: map_of_rev_last filter_writes_absent)

lemma row_in_mergeSeries:
  "row \<in> set (mergeSeries series metric) \<longleftrightarrow>
     row_t row \<in> set (timestamps series) \<and>
     cols row = (\<lambda>k. map_of (rev (writes series metric)) (row_t row, k))"
  unfolding mergeSeries_rows by (cases row) auto

lemma keys_writes_run:
  "(t', column_key runId metric) \<in> fst ` set (writes_run r metric records) \<longleftrightarrow>
     r = runId \<and> t' \<in> rec_t ` set records"
  by (induction records) (auto simp: writes_run_def column_key_inject)

lemma keys_writes:
  "(t', column_key runId metric) \<in> fst ` set (writes series metric) \<longleftrightarrow>
     (\<exists>records. (runId, records) \<in> set series \<and> t' \<in> rec_t ` set records)"
proof (induction series)
  case Nil
  show ?case by (simp add: writes_def)
next
  case (Cons p ps)
  obtain r recs where p: "p = (r, recs)" by (cases p)
  have w: "writes (p # ps) metric = writes_run r metric recs @ writes ps metric"
    by (simp add: writes_def p)
  show ?case
    unfolding w set_append image_Un Un_iff Cons.IH keys_writes_run
    by (auto simp: p)
qed

lemma lookup_writes_domain:
  "map_of (rev (writes series metric)) (t', column_key runId metric) \<noteq> None \<longleftrightarrow>
     (\<exists>records. (runId, records) \<in> set series \<and> t' \<in> rec_t ` set records)"
proof -
  have "map_of (rev (writes series metric)) (t', column_key runId metric) \<noteq> None \<longleftrightarrow>
      (t', column_key runId metric) \<in> fst ` set (writes series metric)"
    by (simp add: map_of_eq_None_iff)
  also have "\<dots> \<longleftrightarrow> (\<exists>records. (runId, records) \<in> set series \<and> t' \<in> rec_t ` set records)"
    by (rule keys_writes)
  finally show ?thesis .
qed


subsection \<open>The merged rows\<close>

text \<open>
  Claim C7. For every series mapping and metric name, the merged output has exactly one
  row per distinct \<open>t\<close> observed across all input sequences, in ascending order of
  \<open>t\<close>: the rows' timestamps are sorted, pairwise different, and are exactly the
  timestamps of the input.
\<close>

theorem merge_rows_sorted_distinct:
  "sorted (map row_t (mergeSeries series metric)) \<and>
   distinct (map row_t (mergeSeries series metric)) \<and>
   set (map row_t (mergeSeries series metric)) = set (timestamps series)"
proof -
  have "map row_t (mergeSeries series metric) = sorted_list_of_set (set (timestamps series))"
    unfolding mergeSeries_rows by (simp add: comp_def)
  then show ?thesis by simp
qed

theorem merge_rows_sorted_distinct_witness:
  "sorted (map row_t (mergeSeries two_runs ''vehicle_count'')) \<and>
   distinct (map row_t (mergeSeries two_runs ''vehicle_count'')) \<and>
   set (map row_t (mergeSeries two_runs ''vehicle_count'')) = {0, 1}"
  using merge_rows_sorted_distinct [of two_runs "''vehicle_count''"]
  by (simp add: timestamps_def two_runs_def sample_def insert_commute)

text \<open>
  Claim C1, as stated, asks for a zero entry in the row at \<open>t\<close> for every run that has
  no record at \<open>t\<close>. The code writes an entry only while it visits a record: in the
  spec's own example the row at \<open>t = 0\<close> has no \<open>runB-vehicle_count\<close> property at
  all.
\<close>

theorem merge_missing_run_entry_absent:
  "map row_t (mergeSeries two_runs ''vehicle_count'') = [0, 1] \<and>
   cols (mergeSeries two_runs ''vehicle_count'' ! 0) ''runA-vehicle_count'' = Some 5 \<and>
   cols (mergeSeries two_runs ''vehicle_count'' ! 0) ''runB-vehicle_count'' = None \<and>
   cols (mergeSeries two_runs ''vehicle_count'' ! 1) ''runA-vehicle_count'' = Some 7 \<and>
   cols (mergeSeries two_runs ''vehicle_count'' ! 1) ''runB-vehicle_count'' = Some 3"
  by (simp add: mergeSeries_def accumulated_def accumulate_def two_runs_def sample_def
      getField_def nullish_def column_key_def)

text \<open>
  Claim C1, amended. For every timestamp \<open>t'\<close> that appears in at least one run's
  records there is a merged row at \<open>t'\<close>, and that row has a
  \<open><run_id>-<metric>\<close> entry exactly for the runs that have a record at \<open>t'\<close>: for a
  run with no record at \<open>t'\<close> the property is absent, not zero.
\<close>

theorem merge_entry_iff_record:
  assumes "t' \<in> set (timestamps series)"
  shows "\<exists>row. row \<in> set (mergeSeries series metric) \<and> row_t row = t' \<and>
     (\<forall>runId. (cols row (column_key runId metric) \<noteq> None) =
        (\<exists>records. (runId, records) \<in> set series \<and> t' \<in> rec_t ` set records))"
proof -
  let ?row = "\<lparr>row_t = t', cols = (\<lambda>k. map_of (rev (writes series metric)) (t', k))\<rparr>"
  have "?row \<in> set (mergeSeries series metric)"
    using assms by (simp add: row_in_mergeSeries)
  moreover have "row_t ?row = t'" by simp
  moreover have "\<forall>runId. (cols ?row (column_key runId metric) \<noteq> None) =
        (\<exists>records. (runId, records) \<in> set series \<and> t' \<in> rec_t ` set records)"
    using lookup_writes_domain [of series metric t'] by simp
  ultimately show ?thesis by blast
qed

theorem merge_entry_iff_record_witness:
  "\<exists>row. row \<in> set (mergeSeries two_runs ''vehicle_count'') \<and> row_t row = 0 \<and>
     (\<forall>runId. (cols row (column_key runId ''vehicle_count'') \<noteq> None) =
        (\<exists>records. (runId, records) \<in> set two_runs \<and> 0 \<in> rec_t ` set records))"
proof (rule merge_entry_iff_record)
  show "0 \<in> set (timestamps two_runs)"
    by (simp add: timestamps_def two_runs_def sample_def)
qed

text \<open>
  Claim C6. The merge is a function of its inputs, so two calls with the same inputs give
  the same rows in the same order. Beyond that, the output does not depend on the order
  in which the run mapping is iterated: for a mapping (no run identifier twice), any
  reordering of its entries gives the same rows, in the same order, with the same
  values.
\<close>

theorem merge_independent_of_run_order:
  assumes "distinct (map fst series)" and "mset series' = mset series"
  shows "mergeSeries series' metric = mergeSeries series metric"
proof -
  have sets: "set series' = set series"
    using assms(2) by (rule mset_eq_setD)
  have "mset (map fst series') = mset (map fst series)"
    using assms(2) by simp
  then have d': "distinct (map fst series')"
    using assms(1) by (metis mset_eq_imp_distinct_iff)
  have ts: "set (timestamps series') = set (timestamps series)"
    by (simp add: timestamps_def sets)
  have "map_of (rev (writes series' metric)) (t', k) = map_of (rev (writes series metric)) (t', k)"
    for t' k
  proof (cases "k \<in> (\<lambda>r. column_key r metric) ` fst ` set series")
    case True
    then obtain runId records where in_s: "(runId, records) \<in> set series"
      and k: "k = column_key runId metric"
      by auto
    have in_s': "(runId, records) \<in> set series'" using in_s sets by simp
    show ?thesis
      unfolding k lookup_writes_present [OF assms(1) in_s] lookup_writes_present [OF d' in_s'] ..
  next
    case False
    then have "k \<notin> (\<lambda>r. column_key r metric) ` fst ` set series'"
      using sets by simp
    with False show ?thesis
      by (simp add: lookup_writes_absent)
  qed
  then show ?thesis
    unfolding mergeSeries_rows ts by simp
qed

theorem merge_independent_of_run_order_witness:
  "mergeSeries (rev two_runs) ''vehicle_count'' = mergeSeries two_runs ''vehicle_count''"
proof (rule merge_independent_of_run_order)
  show "distinct (map fst two_runs)"
    by (simp add: two_runs_def)
  show "mset (rev two_runs) = mset two_runs"
    by simp
qed

text \<open>
  Claim C10, as stated, speaks of any record of the run at \<open>t\<close> whose metric is
  \<open>null\<close> or \<open>undefined\<close>. When the run has a later record at the same \<open>t\<close>, that
  record's assignment replaces the zero: here the first record of \<open>runA\<close> at \<open>t = 0\<close>
  has \<open>avg_waiting: null\<close>, and the row holds 5.
\<close>

theorem merge_null_metric_overwritten:
  "getField (waiting 0 Null) ''avg_waiting'' = Null \<and>
   map row_t (mergeSeries [(''runA'', [waiting 0 Null, waiting 0 (Number 5)])] ''avg_waiting'') = [0] \<and>
   cols (mergeSeries [(''runA'', [waiting 0 Null, waiting 0 (Number 5)])] ''avg_waiting'' ! 0)
     ''runA-avg_waiting'' = Some 5"
  by (simp add: mergeSeries_def accumulated_def accumulate_def waiting_def
      getField_def nullish_def column_key_def)

text \<open>
  Claim C10, amended. When a run has a record at \<open>t'\<close> and the metric of its last
  record at \<open>t'\<close> is \<open>null\<close> or \<open>undefined\<close>, the merged row at \<open>t'\<close> has the
  \<open><run_id>-<metric>\<close> entry with the numeric value 0.
\<close>

theorem merge_null_metric_zero:
  assumes "distinct (map fst series)" and "(runId, records) \<in> set series"
    and "filter (\<lambda>x. rec_t x = t') records \<noteq> []"
    and "getField (last (filter (\<lambda>x. rec_t x = t') records)) metric = Null \<or>
         getField (last (filter (\<lambda>x. rec_t x = t') records)) metric = Undefined"
  shows "\<exists>row. row \<in> set (mergeSeries series metric) \<and> row_t row = t' \<and>
     cols row (column_key runId metric) = Some 0"
proof -
  let ?row = "\<lparr>row_t = t', cols = (\<lambda>k. map_of (rev (writes series metric)) (t', k))\<rparr>"
  obtain x where "x \<in> set records" "rec_t x = t'"
    using assms(3) by (auto simp: filter_empty_conv)
  then have "t' \<in> set (timestamps series)"
    using assms(2) by (force simp: timestamps_def)
  then have "?row \<in> set (mergeSeries series metric)"
    by (simp add: row_in_mergeSeries)
  moreover have "cols ?row (column_key runId metric) = Some 0"
    using assms(3,4) by (auto simp: lookup_writes_present [OF assms(1,2)] nullish_def)
  ultimately show ?thesis by force
qed

theorem merge_null_metric_zero_witness:
  "\<exists>row. row \<in> set (mergeSeries
       [(''runA'', [waiting 0 (Number 4), waiting 1 Null]), (''runB'', [waiting 1 (Number 2)])]
       ''avg_waiting'') \<and>
     row_t row = 1 \<and> cols row (column_key ''runA'' ''avg_waiting'') = Some 0"
proof (rule merge_null_metric_zero)
  show "distinct (map fst
      [(''runA'', [waiting 0 (Number 4), waiting 1 Null]), (''runB'', [waiting 1 (Number 2)])])"
    by simp
  show "(''runA'', [waiting 0 (Number 4), waiting 1 Null]) \<in> set
      [(''runA'', [waiting 0 (Number 4), waiting 1 Null]), (''runB'', [waiting 1 (Number 2)])]"
    by simp
  show "filter (\<lambda>x. rec_t x = 1) [waiting 0 (Number 4), waiting 1 Null] \<noteq> []"
    by (simp add: waiting_def)
  show "getField (last (filter (\<lambda>x. rec_t x = 1) [waiting 0 (Number 4), waiting 1 Null]))
        ''avg_waiting'' = Null \<or>
      getField (last (filter (\<lambda>x. rec_t x = 1) [waiting 0 (Number 4), waiting 1 Null]))
        ''avg_waiting'' = Undefined"
    by (simp add: waiting_def getField_def)
qed

section \<open>Properties of the replay player\<close>

lemma tick_frames [simp]: "frames (tick s) = frames s"
  by (simp add: tick_def)

lemma tick_playing [simp]: "playing (tick s) = playing s"
  by (simp add: tick_def)

lemma tick_cursor:
  assumes "frames s \<noteq> []" "playing s" "0 \<le> cursor s" "cursor s < int (length (frames s))"
  shows "cursor (tick s) = (cursor s + 1) mod int (length (frames s))"
proof (cases "cursor s \<ge> int (length (frames s)) - 1")
  case True
  with assms(4) have "cursor s + 1 = int (length (frames s))"
    by simp
  with True assms(1,2) show ?thesis
    by (simp add: tick_def interval_installed_def)
next
  case False
  with assms(3) have "(cursor s + 1) mod int (length (frames s)) = cursor s + 1"
    by (simp add: mod_pos_pos_trivial)
  with False assms(1,2) show ?thesis
    by (simp add: tick_def interval_installed_def)
qed

lemma ticks_frames [simp]: "frames ((tick ^^ k) s) = frames s"
  by (induction k) simp_all

lemma ticks_playing [simp]: "playing ((tick ^^ k) s) = playing s"
  by (induction k) simp_all

text \<open>
  Claim C5. For every non-empty frame sequence, while playing, each timer tick advances
  the cursor by exactly one position and a tick at the last position wraps it to 0: after
  \<open>k\<close> ticks the cursor is \<open>k\<close> positions further round the sequence, the sequence is
  the same, and the player is still playing with its interval installed, so playback
  never stops at the end.
\<close>

theorem playback_ticks_loop:
  assumes "frames s \<noteq> []" "playing s" "0 \<le> cursor s" "cursor s < int (length (frames s))"
  shows "cursor ((tick ^^ k) s) = (cursor s + int k) mod int (length (frames s)) \<and>
         frames ((tick ^^ k) s) = frames s \<and>
         playing ((tick ^^ k) s) \<and> interval_installed ((tick ^^ k) s)"
proof -
  let ?n = "int (length (frames s))"
  have n: "0 < ?n" using assms(1) by simp
  have "cursor ((tick ^^ k) s) = (cursor s + int k) mod ?n"
  proof (induction k)
    case 0
    show ?case using assms(3,4) by (simp add: mod_pos_pos_trivial)
  next
    case (Suc k)
    let ?s = "(tick ^^ k) s"
    have "cursor (tick ?s) = (cursor ?s + 1) mod int (length (frames ?s))"
    proof (rule tick_cursor)
      show "frames ?s \<noteq> []" using assms(1) by simp
      show "playing ?s" using assms(2) by simp
      show "0 \<le> cursor ?s" using n by (simp add: Suc.IH)
      show "cursor ?s < int (length (frames ?s))" using n by (simp add: Suc.IH)
    qed
    also have "\<dots> = ((cursor s + int k) mod ?n + 1) mod ?n"
      by (simp add: Suc.IH)
    also have "\<dots> = (cursor s + int k + 1) mod ?n"
      by (rule mod_add_left_eq)
    also have "cursor s + int k + 1 = cursor s + int (Suc k)"
      by simp
    finally show ?case
      by simp
  qed
  moreover have "interval_installed ((tick ^^ k) s)"
    using assms(1,2) by (simp add: interval_installed_def)
  ultimately show ?thesis
    using assms(2) by simp
qed

theorem playback_ticks_loop_witness:
  "cursor (tick (toggle_play (loaded ''run1'' [''f0'', ''f1'', ''f2'']))) = 1 \<and>
   cursor ((tick ^^ 2) (toggle_play (loaded ''run1'' [''f0'', ''f1'', ''f2'']))) = 2 \<and>
   cursor ((tick ^^ 3) (toggle_play (loaded ''run1'' [''f0'', ''f1'', ''f2'']))) = 0 \<and>
   playing ((tick ^^ 3) (toggle_play (loaded ''run1'' [''f0'', ''f1'', ''f2'']))) \<and>
   interval_installed ((tick ^^ 3) (toggle_play (loaded ''run1'' [''f0'', ''f1'', ''f2''])))"
proof -
  let ?s = "toggle_play (loaded ''run1'' [''f0'', ''f1'', ''f2''])"
  have s: "?s = \<lparr>frames = [''f0'', ''f1'', ''f2''], selectedRun = Some ''run1'', loading = False,
      cursor = 0, playing = True\<rparr>"
    by (simp add: toggle_play_def play_disabled_def loaded_def handleRunChange_def)
  have h: "frames ?s \<noteq> []" "playing ?s" "0 \<le> cursor ?s" "cursor ?s < int (length (frames ?s))"
    by (simp_all add: s)
  have c: "cursor ?s = 0" "int (length (frames ?s)) = 3"
    by (simp_all add: s)
  show ?thesis
    using playback_ticks_loop [OF h, of 1] playback_ticks_loop [OF h, of 2]
      playback_ticks_loop [OF h, of 3]
    unfolding c by simp
qed

text \<open>
  Claim C4. For every loaded, non-empty frame sequence of length \<open>n\<close> and every
  requested position \<open>p\<close>, below 0 or beyond the end included, seeking sets the cursor
  to \<open>p\<close> clamped into \<open>[0, n - 1]\<close>: the request is never refused and the cursor
  never leaves the range. (With no frames the slider is disabled and there is no seek.)
\<close>

theorem seek_clamps:
  assumes "frames s \<noteq> []"
  shows "cursor (seek p s) = max 0 (min (int (length (frames s)) - 1) p) \<and>
         0 \<le> cursor (seek p s) \<and> cursor (seek p s) \<le> int (length (frames s)) - 1 \<and>
         currentFrame (seek p s) \<noteq> None"
proof -
  have n: "0 < int (length (frames s))" using assms by simp
  then have c: "cursor (seek p s) = max 0 (min (int (length (frames s)) - 1) p)"
    using assms by (simp add: seek_def Slider_value_def)
  have f: "frames (seek p s) = frames s"
    by (simp add: seek_def)
  from n have lo: "0 \<le> max 0 (min (int (length (frames s)) - 1) p)"
    and hi: "max 0 (min (int (length (frames s)) - 1) p) \<le> int (length (frames s)) - 1"
    by simp_all
  from lo hi show ?thesis
    unfolding currentFrame_def f c by simp
qed

theorem seek_clamps_witness:
  "cursor (seek 99 (loaded ''run1'' [''f0'', ''f1'', ''f2''])) = 2 \<and>
   cursor (seek (- 5) (loaded ''run1'' [''f0'', ''f1'', ''f2''])) = 0 \<and>
   cursor (seek 1 (loaded ''run1'' [''f0'', ''f1'', ''f2''])) = 1"
proof -
  let ?s = "loaded ''run1'' [''f0'', ''f1'', ''f2'']"
  have f: "frames ?s = [''f0'', ''f1'', ''f2'']"
    by (simp add: loaded_def handleRunChange_def)
  have h: "frames ?s \<noteq> []"
    by (simp add: f)
  show ?thesis
    using seek_clamps [OF h, of 99] seek_clamps [OF h, of "- 5"] seek_clamps [OF h, of 1]
    unfolding f by simp
qed

section \<open>Properties of the state stream\<close>

subsection \<open>Messages on the push transport\<close>

lemma onmessage_effect:
  "onmessage data s =
     s\<lparr>delivered := delivered s @ [unwrap p. Parsed p \<leftarrow> [data], truthy (unwrap p)],
       console := console s @ [''Failed to parse state payload''. Unparseable \<leftarrow> [data]]\<rparr>"
  by (cases data) (simp_all add: onmessage_def warn_def listener_def Let_def)

text \<open>
  Claim C9. For every sequence of messages on an open socket, the session handles each
  one and goes on (no handler throws: the run is defined), and nothing of the session
  changes but the listener's calls and the console: the listener is called, in order,
  with the state of exactly the messages that parse to one, and each message that fails
  to parse adds one diagnostic and no call. So a malformed message followed by a valid
  one gives exactly one listener call, with the valid payload.
\<close>

theorem malformed_messages_skipped:
  assumes "socket_is s i OPEN"
  shows "run s (map (SocketMessage i) ms) =
     Some (s\<lparr>delivered := delivered s @ [unwrap p. Parsed p \<leftarrow> ms, truthy (unwrap p)],
              console := console s @ [''Failed to parse state payload''. Unparseable \<leftarrow> ms]\<rparr>)"
  using assms
proof (induction ms arbitrary: s)
  case Nil
  show ?case by simp
next
  case (Cons m ms)
  let ?s = "onmessage m s"
  have "socket_is ?s i OPEN"
    using Cons.prems by (simp add: onmessage_effect socket_is_def)
  then have "run ?s (map (SocketMessage i) ms) =
     Some (?s\<lparr>delivered := delivered ?s @ [unwrap p. Parsed p \<leftarrow> ms, truthy (unwrap p)],
              console := console ?s @ [''Failed to parse state payload''. Unparseable \<leftarrow> ms]\<rparr>)"
    by (rule Cons.IH)
  then show ?case
    using Cons.prems by (simp add: onmessage_effect)
qed

theorem malformed_messages_skipped_witness:
  "run (onopen (set_socket 0 OPEN (connectStateStream True)))
     [SocketMessage 0 Unparseable,
      SocketMessage 0 (Parsed (JObject [(''state'', JObject [(''t'', JNumber 7)])]))] =
   Some ((onopen (set_socket 0 OPEN (connectStateStream True)))
     \<lparr>delivered := [JObject [(''t'', JNumber 7)]],
      console := [''Failed to parse state payload'']\<rparr>)"
proof -
  let ?s = "onopen (set_socket 0 OPEN (connectStateStream True))"
  have s: "?s = \<lparr>socket = Some 0, stopped = False, fallbackTimer = None, reconnectTimer = None,
        controller = None, constructible = True, sockets = [OPEN], timers = [], requests = [],
        nextId = 0, delivered = [], console = [], history = []\<rparr>"
    by (simp add: onopen_def set_socket_def connectStateStream_def connectSocket_def
        stopFallback_def)
  have h: "socket_is ?s 0 OPEN"
    by (simp add: s socket_is_def)
  have u: "unwrap (JObject [(''state'', JObject [(''t'', JNumber 7)])]) = JObject [(''t'', JNumber 7)]"
    by (simp add: unwrap_def)
  show ?thesis
    using malformed_messages_skipped [OF h,
        of "[Unparseable, Parsed (JObject [(''state'', JObject [(''t'', JNumber 7)])])]"]
    by (simp add: s u)
qed

subsection \<open>One pull request at a time\<close>

lemma in_flight_Nil [simp]: "in_flight [] = []"
  by (simp add: in_flight_def)

lemma in_flight_snoc [simp]: "in_flight (h @ [a]) = apply_wire a (in_flight h)"
  by (simp add: in_flight_def)

lemma never_two_Nil [simp]: "never_two []"
  by (simp add: never_two_def)

lemma never_two_snoc:
  "never_two (h @ [a]) \<longleftrightarrow> never_two h \<and> length (apply_wire a (in_flight h)) \<le> 1"
  by (simp add: never_two_def)

lemma never_two_prefix:
  "never_two h \<Longrightarrow> prefix p h \<Longrightarrow> length (in_flight p) \<le> 1"
  by (simp add: never_two_def list_all_iff)

lemma live_Nil [simp]: "live [] = []"
  by (simp add: live_def)

lemma live_abort:
  "live (map (\<lambda>p. (fst p, snd p \<or> fst p = c)) rs) = removeAll c (live rs)"
  by (induction rs) (auto simp: live_def)

lemma live_settle:
  "live (filter (\<lambda>p. fst p \<noteq> c) rs) = removeAll c (live rs)"
  by (induction rs) (auto simp: live_def)

lemma live_issue: "live (rs @ [(c, False)]) = live rs @ [c]"
  by (simp add: live_def)

lemma live_none: "live rs = [] \<longleftrightarrow> list_all snd rs"
  by (induction rs) (auto simp: live_def)

lemma length_removeAll_one: "length xs \<le> 1 \<Longrightarrow> length (removeAll c xs) \<le> 1"
  using length_removeAll_less_eq [of c xs] by linarith

lemma poll_inv_cong:
  "history s' = history s \<Longrightarrow> requests s' = requests s \<Longrightarrow> controller s' = controller s \<Longrightarrow>
     poll_inv s' = poll_inv s"
  by (simp add: poll_inv_def)

lemma poll_inv_abort:
  assumes "poll_inv s"
  shows "poll_inv (abort c s)"
proof -
  have h: "history (abort c s) = history s @ [Aborted c]"
    and r: "requests (abort c s) = map (\<lambda>p. (fst p, snd p \<or> fst p = c)) (requests s)"
    and k: "controller (abort c s) = controller s"
    by (simp_all add: abort_def)
  have "length (live (requests s)) \<le> 1"
    using assms unfolding poll_inv_def by blast
  then have one: "length (removeAll c (live (requests s))) \<le> 1"
    by (rule length_removeAll_one)
  have "in_flight (history (abort c s)) = live (requests (abort c s))"
    using assms by (simp add: h r live_abort poll_inv_def)
  moreover have "list_all (\<lambda>p. snd p \<or> controller (abort c s) = Some (fst p))
      (requests (abort c s))"
    using assms unfolding r k poll_inv_def list_all_iff by auto
  moreover have "length (live (requests (abort c s))) \<le> 1"
    using one by (simp add: r live_abort)
  moreover have "never_two (history (abort c s))"
    using assms one by (simp add: h never_two_snoc poll_inv_def)
  ultimately show ?thesis
    unfolding poll_inv_def by blast
qed

lemma aborted_all:
  assumes "poll_inv s" "controller s = Some c"
  shows "live (requests (abort c s)) = []"
proof -
  have r: "requests (abort c s) = map (\<lambda>p. (fst p, snd p \<or> fst p = c)) (requests s)"
    by (simp add: abort_def)
  have "list_all (\<lambda>p. snd p \<or> fst p = c) (requests s)"
    using assms unfolding poll_inv_def list_all_iff by auto
  then have "list_all snd (map (\<lambda>p. (fst p, snd p \<or> fst p = c)) (requests s))"
    unfolding list_all_iff by auto
  then show ?thesis
    unfolding r live_none .
qed

lemma no_controller_none_live:
  assumes "poll_inv s" "controller s = None"
  shows "live (requests s) = []"
proof -
  have "list_all snd (requests s)"
    using assms unfolding poll_inv_def list_all_iff by auto
  then show ?thesis
    by (simp add: live_none)
qed

lemma poll_inv_issue:
  assumes "poll_inv s" "live (requests s) = []"
  shows "poll_inv (s\<lparr>controller := Some c, requests := requests s @ [(c, False)],
      nextId := n, history := history s @ [Issued c]\<rparr>)"
proof -
  have "list_all snd (requests s)"
    using assms(2) by (simp add: live_none)
  then have held: "list_all (\<lambda>p. snd p \<or> Some c = Some (fst p)) (requests s)"
    unfolding list_all_iff by auto
  have f: "in_flight (history s) = []" and two: "never_two (history s)"
    using assms by (simp_all add: poll_inv_def)
  show ?thesis
    unfolding poll_inv_def
    using held two by (simp add: f assms(2) live_issue never_two_snoc)
qed

lemma poll_inv_pollState:
  assumes "poll_inv s"
  shows "poll_inv (pollState s)"
proof (cases "stopped s")
  case True
  with assms show ?thesis by (simp add: pollState_def)
next
  case False
  show ?thesis
  proof (cases "controller s")
    case None
    have "poll_inv (s\<lparr>controller := Some (nextId s), requests := requests s @ [(nextId s, False)],
        nextId := Suc (nextId s), history := history s @ [Issued (nextId s)]\<rparr>)"
      using assms no_controller_none_live [OF assms None] by (rule poll_inv_issue)
    then show ?thesis
      using False None by (simp add: pollState_def Let_def)
  next
    case (Some c)
    let ?a = "abort c s"
    have "poll_inv (?a\<lparr>controller := Some (nextId ?a),
        requests := requests ?a @ [(nextId ?a, False)],
        nextId := Suc (nextId ?a), history := history ?a @ [Issued (nextId ?a)]\<rparr>)"
      using poll_inv_abort [OF assms] aborted_all [OF assms Some] by (rule poll_inv_issue)
    then show ?thesis
      using False Some by (simp add: pollState_def Let_def)
  qed
qed

lemma poll_inv_clearTimeout [simp]: "poll_inv (clearTimeout i s) = poll_inv s"
  by (rule poll_inv_cong) (simp_all add: clearTimeout_def)

lemma poll_inv_setTimeout [simp]: "poll_inv (setTimeout cb s) = poll_inv s"
  by (rule poll_inv_cong) (simp_all add: setTimeout_def)

lemma poll_inv_warn [simp]: "poll_inv (warn msg s) = poll_inv s"
  by (rule poll_inv_cong) (simp_all add: warn_def)

lemma poll_inv_listener [simp]: "poll_inv (listener v s) = poll_inv s"
  by (rule poll_inv_cong) (simp_all add: listener_def)

lemma poll_inv_set_socket [simp]: "poll_inv (set_socket i st s) = poll_inv s"
  by (rule poll_inv_cong) (simp_all add: set_socket_def)

lemma poll_inv_close [simp]: "poll_inv (close i s) = poll_inv s"
  by (rule poll_inv_cong) (simp_all add: close_def)

lemma poll_inv_fields [simp]:
  "poll_inv (s\<lparr>fallbackTimer := ft\<rparr>) = poll_inv s"
  "poll_inv (s\<lparr>reconnectTimer := rt\<rparr>) = poll_inv s"
  "poll_inv (s\<lparr>stopped := b\<rparr>) = poll_inv s"
  "poll_inv (s\<lparr>socket := so, sockets := ss\<rparr>) = poll_inv s"
  by (simp_all add: poll_inv_def)

lemma poll_inv_drop_controller:
  assumes "poll_inv s" "live (requests s) = []"
  shows "poll_inv (s\<lparr>controller := None\<rparr>)"
proof -
  have "list_all snd (requests s)"
    using assms(2) by (simp add: live_none)
  then have "list_all (\<lambda>p. snd p \<or> None = Some (fst p)) (requests s)"
    unfolding list_all_iff by auto
  then show ?thesis
    using assms(1) by (simp add: poll_inv_def)
qed

lemma poll_inv_abort_controller:
  assumes "poll_inv s"
  shows "poll_inv (case controller s of
      Some c \<Rightarrow> (abort c s)\<lparr>controller := None\<rparr> | None \<Rightarrow> s)"
proof (cases "controller s")
  case None
  with assms show ?thesis by simp
next
  case (Some c)
  have "poll_inv ((abort c s)\<lparr>controller := None\<rparr>)"
    using poll_inv_abort [OF assms] aborted_all [OF assms Some]
    by (rule poll_inv_drop_controller)
  with Some show ?thesis by simp
qed

lemma poll_inv_clear_fallback:
  "poll_inv s \<Longrightarrow> poll_inv (case fallbackTimer s of
      Some i \<Rightarrow> (clearTimeout i s)\<lparr>fallbackTimer := None\<rparr> | None \<Rightarrow> s)"
  by (cases "fallbackTimer s") simp_all

lemma poll_inv_stopFallback: "poll_inv s \<Longrightarrow> poll_inv (stopFallback s)"
  unfolding stopFallback_def Let_def
  by (intro poll_inv_abort_controller poll_inv_clear_fallback)

lemma poll_inv_settle:
  assumes "poll_inv s"
  shows "poll_inv (s\<lparr>requests := filter (\<lambda>p. fst p \<noteq> c) (requests s),
      history := history s @ [Settled c]\<rparr>)"
proof -
  have "length (live (requests s)) \<le> 1"
    using assms unfolding poll_inv_def by blast
  then have one: "length (removeAll c (live (requests s))) \<le> 1"
    by (rule length_removeAll_one)
  have held: "list_all (\<lambda>p. snd p \<or> controller s = Some (fst p))
      (filter (\<lambda>p. fst p \<noteq> c) (requests s))"
    using assms unfolding poll_inv_def list_all_iff by auto
  have f: "in_flight (history s) = live (requests s)" and two: "never_two (history s)"
    using assms by (simp_all add: poll_inv_def)
  show ?thesis
    unfolding poll_inv_def
    using one held two by (simp add: f live_settle never_two_snoc del: filter_filter)
qed

lemma poll_inv_resumed:
  assumes "poll_inv s"
  shows "poll_inv (pollState_resumed c outcome s)"
proof -
  define s1 where "s1 = s\<lparr>requests := filter (\<lambda>p. fst p \<noteq> c) (requests s),
      history := history s @ [Settled c]\<rparr>"
  have inv1: "poll_inv s1"
    unfolding s1_def using assms by (rule poll_inv_settle)
  define s2 where "s2 = (case outcome of
      Some state \<Rightarrow> (if truthy state then listener state s1 else s1)
    | None \<Rightarrow> warn ''State fallback request failed'' s1)"
  have inv2: "poll_inv s2"
    using inv1 by (simp add: s2_def split: option.splits)
  have "pollState_resumed c outcome s = (setTimeout PollState s2)\<lparr>fallbackTimer := Some (nextId s2)\<rparr>"
    unfolding pollState_resumed_def Let_def s1_def s2_def ..
  then show ?thesis
    using inv2 by simp
qed

lemma poll_inv_ensureFallback: "poll_inv s \<Longrightarrow> poll_inv (ensureFallback s)"
  by (simp add: ensureFallback_def poll_inv_pollState)

lemma poll_inv_scheduleReconnect: "poll_inv s \<Longrightarrow> poll_inv (scheduleReconnect s)"
  by (simp add: scheduleReconnect_def)

lemma poll_inv_connectSocket: "poll_inv s \<Longrightarrow> poll_inv (connectSocket s)"
  by (simp add: connectSocket_def poll_inv_scheduleReconnect poll_inv_ensureFallback)

lemma poll_inv_onclose: "poll_inv s \<Longrightarrow> poll_inv (onclose s)"
  by (simp add: onclose_def poll_inv_scheduleReconnect poll_inv_ensureFallback)

lemma poll_inv_onerror: "poll_inv s \<Longrightarrow> poll_inv (onerror s)"
  by (simp add: onerror_def poll_inv_ensureFallback)

lemma poll_inv_onmessage: "poll_inv s \<Longrightarrow> poll_inv (onmessage data s)"
  by (simp add: onmessage_def Let_def split: payload.splits)

lemma poll_inv_clear_reconnect:
  "poll_inv s \<Longrightarrow> poll_inv (case reconnectTimer s of
      Some i \<Rightarrow> (clearTimeout i s)\<lparr>reconnectTimer := None\<rparr> | None \<Rightarrow> s)"
  by (cases "reconnectTimer s") simp_all

lemma poll_inv_close_socket:
  "poll_inv s \<Longrightarrow> poll_inv (case socket s of Some i \<Rightarrow> close i s | None \<Rightarrow> s)"
  by (cases "socket s") simp_all

lemma poll_inv_cleanup: "poll_inv s \<Longrightarrow> poll_inv (cleanup s)"
  unfolding cleanup_def Let_def
  by (intro poll_inv_close_socket poll_inv_clear_reconnect poll_inv_stopFallback) simp


lemma poll_inv_step: "poll_inv s \<Longrightarrow> step s e = Some s' \<Longrightarrow> poll_inv s'"
proof (cases e)
  case (TimerFired k)
  assume "poll_inv s" "step s e = Some s'"
  then show ?thesis
    using TimerFired
    by (auto simp: poll_inv_pollState poll_inv_connectSocket
        split: option.splits callback.splits)
qed (auto simp: onopen_def poll_inv_stopFallback poll_inv_onmessage poll_inv_onerror
    poll_inv_onclose poll_inv_resumed poll_inv_cleanup split: if_splits)

lemma poll_inv_run: "poll_inv s \<Longrightarrow> run s evs = Some s' \<Longrightarrow> poll_inv s'"
proof (induction evs arbitrary: s)
  case Nil
  then show ?case by simp
next
  case (Cons e evs)
  then show ?case
    by (auto split: option.splits dest: poll_inv_step)
qed

lemma poll_inv_start: "poll_inv (connectStateStream ok)"
proof -
  have "poll_inv \<lparr>socket = None, stopped = False, fallbackTimer = None, reconnectTimer = None,
        controller = None, constructible = ok, sockets = [], timers = [], requests = [],
        nextId = 0, delivered = [], console = [], history = []\<rparr>"
    by (simp add: poll_inv_def)
  then show ?thesis
    unfolding connectStateStream_def by (rule poll_inv_connectSocket)
qed

text \<open>
  Claim C8. In every session, at every instant of its history of pull requests, at most
  one request is in flight (issued, its abort signal not fired, not settled); and
  whenever a request is issued, no earlier request is still in flight: the abort signal
  of the previous one has fired (or it has settled) before the new one is issued.
\<close>

theorem one_request_in_flight:
  assumes "run (connectStateStream ok) evs = Some s"
  shows "never_two (history s) \<and>
         length (live (requests s)) \<le> 1 \<and>
         (\<forall>h c h'. history s = h @ Issued c # h' \<longrightarrow> in_flight h = [])"
proof -
  have inv: "poll_inv s"
    using poll_inv_start assms by (rule poll_inv_run)
  then have two: "never_two (history s)"
    by (simp add: poll_inv_def)
  have "in_flight h = []" if "history s = h @ Issued c # h'" for h c h'
  proof -
    have "prefix (h @ [Issued c]) (history s)"
      by (simp add: that prefix_def)
    with two have "length (in_flight (h @ [Issued c])) \<le> 1"
      by (rule never_two_prefix)
    then show ?thesis by simp
  qed
  with inv two show ?thesis
    by (simp add: poll_inv_def)
qed

lemmas stream_defs =
  connectStateStream_def connectSocket_def socket_is_def set_socket_def onopen_def
  onclose_def onerror_def onmessage_def stopFallback_def ensureFallback_def pollState_def
  pollState_resumed_def scheduleReconnect_def setTimeout_def clearTimeout_def abort_def
  cleanup_def close_def listener_def warn_def unwrap_def Let_def

theorem one_request_in_flight_witness:
  "run (connectStateStream True) [SocketError 0] =
     Some \<lparr>socket = Some 0, stopped = False, fallbackTimer = None, reconnectTimer = Some 2,
       controller = Some 1, constructible = True, sockets = [CLOSED],
       timers = [(2, Reconnect)], requests = [(0, True), (1, False)], nextId = 3,
       delivered = [], console = [''State stream error''],
       history = [Issued 0, Aborted 0, Issued 1]\<rparr> \<and>
   never_two [Issued 0, Aborted 0, Issued 1] \<and>
   length (live [(0, True), (1, False)]) \<le> 1 \<and>
   in_flight [Issued 0, Aborted 0] = []"
proof -
  have r: "run (connectStateStream True) [SocketError 0] =
     Some \<lparr>socket = Some 0, stopped = False, fallbackTimer = None, reconnectTimer = Some 2,
       controller = Some 1, constructible = True, sockets = [CLOSED],
       timers = [(2, Reconnect)], requests = [(0, True), (1, False)], nextId = 3,
       delivered = [], console = [''State stream error''],
       history = [Issued 0, Aborted 0, Issued 1]\<rparr>"
    by (simp add: stream_defs)
  show ?thesis
    using r one_request_in_flight [OF r] by simp
qed

subsection \<open>Where the poll loop outlives its cancellation\<close>

text \<open>
  Claim C2 (the code departs from it). A socket opens and closes, so the fallback issues
  request 0 and a reconnect is scheduled; the caller detaches while the request is
  outstanding. \<open>cleanup\<close> aborts the request and leaves no timer. The aborted request
  then rejects, \<open>pollState\<close> resumes after its \<open>await\<close> and, without looking at
  \<open>stopped\<close>, sets a new fallback timer: a timer is scheduled after the detach. (When it
  fires, \<open>pollState\<close> returns at once; the listener is not called.)

  A timer can also be left over by \<open>cleanup\<close> itself. A failed connection dispatches
  the error and the close event; both handlers find \<open>fallbackTimer\<close> still \<open>null\<close>
  and each starts a poll. Both polls set a timer when they settle, the second assignment
  to \<open>fallbackTimer\<close> loses the first timer's number, and \<open>cleanup\<close> clears only the
  second.
\<close>

theorem detach_then_timer_scheduled:
  "map_option stopped (run (connectStateStream True) [SocketOpen 0, SocketClose 0, Detach]) =
     Some True \<and>
   map_option timers (run (connectStateStream True) [SocketOpen 0, SocketClose 0, Detach]) =
     Some [] \<and>
   map_option requests (run (connectStateStream True) [SocketOpen 0, SocketClose 0, Detach]) =
     Some [(0, True)] \<and>
   map_option timers
     (run (connectStateStream True) [SocketOpen 0, SocketClose 0, Detach, FetchRejected 0]) =
     Some [(2, PollState)] \<and>
   map_option delivered
     (run (connectStateStream True) [SocketOpen 0, SocketClose 0, Detach, FetchRejected 0]) =
     Some [] \<and>
   map_option timers
     (run (connectStateStream True)
        [SocketError 0, FetchRejected 0, FetchResolved 1 (JObject [(''t'', JNumber 1)]), Detach]) =
     Some [(3, PollState)]"
  by (simp add: stream_defs)

text \<open>
  Claim C3 (the code departs from it). The socket closes and the fallback polls; the
  reconnect succeeds while poll request 3 is outstanding. \<open>onopen\<close> calls
  \<open>stopFallback\<close>, which aborts the request; the aborted request rejects,
  \<open>pollState\<close> resumes and schedules the next poll all the same. From then on socket 1
  is open and the poll loop runs: with request 5 outstanding, a socket message and the
  poll's response each reach the listener.
\<close>

theorem poll_loop_beside_open_socket:
  "map_option sockets (run (connectStateStream True)
     [SocketOpen 0, SocketClose 0, FetchResolved 0 (JObject [(''t'', JNumber 1)]), TimerFired 2,
      TimerFired 1, SocketOpen 1, FetchRejected 3, TimerFired 4]) = Some [CLOSED, OPEN] \<and>
   map_option requests (run (connectStateStream True)
     [SocketOpen 0, SocketClose 0, FetchResolved 0 (JObject [(''t'', JNumber 1)]), TimerFired 2,
      TimerFired 1, SocketOpen 1, FetchRejected 3, TimerFired 4]) = Some [(5, False)] \<and>
   map_option delivered (run (connectStateStream True)
     [SocketOpen 0, SocketClose 0, FetchResolved 0 (JObject [(''t'', JNumber 1)]), TimerFired 2,
      TimerFired 1, SocketOpen 1, FetchRejected 3, TimerFired 4,
      SocketMessage 1 (Parsed (JObject [(''t'', JNumber 2)])),
      FetchResolved 5 (JObject [(''t'', JNumber 3)])]) =
     Some [JObject [(''t'', JNumber 1)], JObject [(''t'', JNumber 2)], JObject [(''t'', JNumber 3)]] \<and>
   map_option timers (run (connectStateStream True)
     [SocketOpen 0, SocketClose 0, FetchResolved 0 (JObject [(''t'', JNumber 1)]), TimerFired 2,
      TimerFired 1, SocketOpen 1, FetchRejected 3, TimerFired 4,
      SocketMessage 1 (Parsed (JObject [(''t'', JNumber 2)])),
      FetchResolved 5 (JObject [(''t'', JNumber 3)])]) = Some [(6, PollState)]"
  by (simp add: stream_defs)

subsection \<open>After detach the listener is silent\<close>

lemma detached_pollState: "stopped s \<Longrightarrow> pollState s = s"
  by (simp add: pollState_def)

lemma detached_ensureFallback: "stopped s \<Longrightarrow> ensureFallback s = s"
  by (simp add: ensureFallback_def detached_pollState)

lemma detached_scheduleReconnect: "stopped s \<Longrightarrow> scheduleReconnect s = s"
  by (simp add: scheduleReconnect_def)

lemma detached_connectSocket: "stopped s \<Longrightarrow> connectSocket s = s"
  by (simp add: connectSocket_def)

lemma detached_fields:
  "detached (s\<lparr>timers := ts\<rparr>) = detached s"
  "detached (s\<lparr>reconnectTimer := rt\<rparr>) = detached s"
  "detached (s\<lparr>fallbackTimer := ft\<rparr>) = detached s"
  "detached (s\<lparr>console := cs\<rparr>) = detached s"
  "detached (s\<lparr>controller := co\<rparr>) = detached s"
  "detached (s\<lparr>nextId := n\<rparr>) = detached s"
  "detached (s\<lparr>history := h\<rparr>) = detached s"
  by (simp_all add: detached_def)

lemma detached_set_closed:
  "detached s \<Longrightarrow> detached (set_socket i CLOSED s)"
  by (auto simp: detached_def set_socket_def list_all_iff dest: set_update_subset_insert [THEN subsetD])

lemma detached_abort: "detached s \<Longrightarrow> detached (abort c s)"
  by (auto simp: detached_def abort_def list_all_iff)

lemma delivered_abort [simp]: "delivered (abort c s) = delivered s"
  by (simp add: abort_def)

lemma delivered_clearTimeout [simp]: "delivered (clearTimeout i s) = delivered s"
  by (simp add: clearTimeout_def)

lemma delivered_close [simp]: "delivered (close i s) = delivered s"
  by (simp add: close_def)

lemma delivered_stopFallback [simp]: "delivered (stopFallback s) = delivered s"
  by (simp add: stopFallback_def Let_def split: option.splits)

lemma delivered_cleanup [simp]: "delivered (cleanup s) = delivered s"
  by (simp add: cleanup_def Let_def split: option.splits)

lemma detached_clearTimeout: "detached s \<Longrightarrow> detached (clearTimeout i s)"
  by (simp add: clearTimeout_def detached_fields)

lemma detached_close: "detached s \<Longrightarrow> detached (close i s)"
  by (auto simp: detached_def close_def list_all_iff dest: set_update_subset_insert [THEN subsetD])

lemma detached_stopFallback: "detached s \<Longrightarrow> detached (stopFallback s)"
  by (simp add: stopFallback_def Let_def detached_fields detached_clearTimeout detached_abort
      split: option.splits)

lemma detached_cleanup_again: "detached s \<Longrightarrow> detached (cleanup s)"
proof -
  assume d: "detached s"
  then have "detached (s\<lparr>stopped := True\<rparr>)"
    by (simp add: detached_def)
  then have "detached (stopFallback (s\<lparr>stopped := True\<rparr>))"
    by (rule detached_stopFallback)
  then show ?thesis
    by (simp add: cleanup_def Let_def detached_fields detached_clearTimeout detached_close
        split: option.splits)
qed

lemma detached_resumed:
  assumes "detached s"
  shows "detached (pollState_resumed c None s) \<and>
         delivered (pollState_resumed c None s) = delivered s"
  using assms
  by (auto simp: pollState_resumed_def Let_def detached_def warn_def setTimeout_def list_all_iff)

lemma detached_step:
  assumes "detached s" "step s e = Some s'"
  shows "detached s' \<and> delivered s' = delivered s"
proof (cases e)
  case (SocketOpen i)
  have "\<not> socket_is s i CONNECTING"
    using assms(1) by (auto simp: detached_def socket_is_def list_all_length)
  with assms(2) SocketOpen show ?thesis by simp
next
  case (SocketMessage i data)
  have "\<not> socket_is s i OPEN"
    using assms(1) by (auto simp: detached_def socket_is_def list_all_length)
  with assms(2) SocketMessage show ?thesis by simp
next
  case (SocketError i)
  let ?c = "set_socket i CLOSED s"
  have d: "detached ?c" using assms(1) by (rule detached_set_closed)
  then have st: "stopped (warn ''State stream error'' ?c)"
    by (simp add: detached_def warn_def)
  have "onclose (onerror ?c) = warn ''State stream error'' ?c"
    using st by (simp add: onclose_def onerror_def detached_ensureFallback
        detached_scheduleReconnect)
  moreover have "s' = onclose (onerror ?c)"
    using assms(2) SocketError by (simp split: if_splits)
  ultimately have "s' = ?c\<lparr>console := console ?c @ [''State stream error'']\<rparr>"
    by (simp add: warn_def)
  with d show ?thesis
    by (simp add: detached_fields set_socket_def)
next
  case (SocketClose i)
  let ?c = "set_socket i CLOSED s"
  have d: "detached ?c" using assms(1) by (rule detached_set_closed)
  then have "onclose ?c = ?c"
    by (simp add: onclose_def detached_ensureFallback detached_scheduleReconnect detached_def)
  moreover have "s' = onclose ?c"
    using assms(2) SocketClose by (simp split: if_splits)
  ultimately have "s' = ?c"
    by simp
  with d show ?thesis
    by (simp add: set_socket_def)
next
  case (TimerFired k)
  let ?c = "clearTimeout k s"
  have d: "detached ?c" using assms(1) by (rule detached_clearTimeout)
  have p: "pollState ?c = ?c"
    using d by (simp add: detached_pollState detached_def)
  have "stopped (?c\<lparr>reconnectTimer := None\<rparr>)"
    using d by (simp add: detached_def)
  then have r: "connectSocket (?c\<lparr>reconnectTimer := None\<rparr>) = ?c\<lparr>reconnectTimer := None\<rparr>"
    by (rule detached_connectSocket)
  show ?thesis
    using assms(2) TimerFired d
    by (auto simp: p r detached_fields split: option.splits callback.splits)
next
  case (FetchResolved c v)
  have "map_of (requests s) c \<noteq> Some False"
  proof
    assume "map_of (requests s) c = Some False"
    then have "(c, False) \<in> set (requests s)" by (rule map_of_SomeD)
    with assms(1) show False by (auto simp: detached_def list_all_iff)
  qed
  with assms(2) FetchResolved show ?thesis by simp
next
  case (FetchRejected c)
  with assms(2) have "s' = pollState_resumed c None s"
    by (simp split: if_splits)
  with detached_resumed [OF assms(1)] show ?thesis by simp
next
  case Detach
  with assms show ?thesis
    by (auto simp: detached_cleanup_again)
qed

lemma detached_run:
  "detached s \<Longrightarrow> run s evs = Some s' \<Longrightarrow> detached s' \<and> delivered s' = delivered s"
proof (induction evs arbitrary: s)
  case Nil
  then show ?case by simp
next
  case (Cons e evs)
  from Cons.prems(2) obtain s1 where s1: "step s e = Some s1" and r: "run s1 evs = Some s'"
    by (auto split: option.splits)
  from detached_step [OF Cons.prems(1) s1] Cons.IH [OF _ r] show ?case
    by simp
qed

subsection \<open>One socket at a time\<close>

lemma reconnects_clearTimeout: "reconnects (clearTimeout i s) = removeAll i (reconnects s)"
  by (simp add: reconnects_def clearTimeout_def removeAll_filter_not_eq filter_map comp_def
      conj_commute eq_commute)

lemma reconnects_setTimeout_poll [simp]: "reconnects (setTimeout PollState s) = reconnects s"
  by (simp add: reconnects_def setTimeout_def)

lemma reconnects_setTimeout_reconnect:
  "reconnects (setTimeout Reconnect s) = reconnects s @ [nextId s]"
  by (simp add: reconnects_def setTimeout_def)

lemma reconnects_fields [simp]:
  "reconnects (s\<lparr>fallbackTimer := ft\<rparr>) = reconnects s"
  "reconnects (s\<lparr>reconnectTimer := rt\<rparr>) = reconnects s"
  "reconnects (s\<lparr>controller := co\<rparr>) = reconnects s"
  "reconnects (s\<lparr>stopped := b\<rparr>) = reconnects s"
  "reconnects (s\<lparr>sockets := ss\<rparr>) = reconnects s"
  "reconnects (s\<lparr>socket := so\<rparr>) = reconnects s"
  "reconnects (warn msg s) = reconnects s"
  "reconnects (listener v s) = reconnects s"
  "reconnects (abort c s) = reconnects s"
  "reconnects (set_socket i st s) = reconnects s"
  "reconnects (close i s) = reconnects s"
  by (simp_all add: reconnects_def warn_def listener_def abort_def set_socket_def close_def)

lemma socket_inv_calm:
  assumes "socket_inv s" "calm s' s"
  shows "socket_inv s'"
proof -
  have eq: "sockets s' = sockets s" "socket s' = socket s" "reconnectTimer s' = reconnectTimer s"
    and sub: "set (reconnects s') \<subseteq> set (reconnects s)"
    using assms(2) by (simp_all add: calm_def)
  have c: "list_all (\<lambda>k. reconnectTimer s' = Some k) (reconnects s')"
    using assms(1) sub unfolding socket_inv_def eq list_all_iff by blast
  have d: "reconnects s' = [] \<or> list_all (\<lambda>st. st = CLOSED) (sockets s')"
    using assms(1) sub unfolding socket_inv_def eq by auto
  show ?thesis
    using assms(1) c d unfolding socket_inv_def eq by blast
qed

lemma calm_refl [simp]: "calm s s"
  by (simp add: calm_def)

lemma calm_trans: "calm s2 s1 \<Longrightarrow> calm s1 s \<Longrightarrow> calm s2 s"
  by (auto simp: calm_def)

lemma calm_simple [simp]:
  "calm (warn msg s) s"
  "calm (listener v s) s"
  "calm (abort c s) s"
  "calm (clearTimeout i s) s"
  "calm (setTimeout PollState s) s"
  "calm (s\<lparr>fallbackTimer := ft\<rparr>) s"
  "calm (s\<lparr>controller := co\<rparr>) s"
  by (simp_all add: calm_def reconnects_clearTimeout)
    (simp_all add: warn_def listener_def abort_def clearTimeout_def setTimeout_def)

lemma calm_after:
  "calm s1 s \<Longrightarrow> calm (warn msg s1) s"
  "calm s1 s \<Longrightarrow> calm (listener v s1) s"
  "calm s1 s \<Longrightarrow> calm (abort c s1) s"
  "calm s1 s \<Longrightarrow> calm (clearTimeout i s1) s"
  "calm s1 s \<Longrightarrow> calm (setTimeout PollState s1) s"
  "calm s1 s \<Longrightarrow> calm (s1\<lparr>fallbackTimer := ft\<rparr>) s"
  "calm s1 s \<Longrightarrow> calm (s1\<lparr>controller := co\<rparr>) s"
  by (erule calm_trans [rotated], simp)+

lemma calm_stopFallback [simp]: "calm (stopFallback s) s"
  by (simp add: stopFallback_def Let_def calm_after split: option.splits)

lemma calm_pollState [simp]: "calm (pollState s) s"
  by (simp add: pollState_def Let_def calm_def reconnects_def abort_def split: option.splits)

lemma calm_ensureFallback [simp]: "calm (ensureFallback s) s"
  by (simp add: ensureFallback_def)

lemma calm_resumed [simp]: "calm (pollState_resumed c outcome s) s"
  by (simp add: pollState_resumed_def Let_def calm_def reconnects_def setTimeout_def
      warn_def listener_def split: option.splits)

lemma calm_onmessage [simp]: "calm (onmessage data s) s"
  by (simp add: onmessage_def Let_def split: payload.splits)

lemma all_closed_calm:
  "calm s' s \<Longrightarrow> list_all (\<lambda>st. st = CLOSED) (sockets s) \<Longrightarrow>
     list_all (\<lambda>st. st = CLOSED) (sockets s')"
  by (simp add: calm_def)

lemma no_reconnects_calm: "calm s' s \<Longrightarrow> reconnects s = [] \<Longrightarrow> reconnects s' = []"
  by (simp add: calm_def)

lemma setTimeout_fields [simp]:
  "sockets (setTimeout cb s) = sockets s"
  "socket (setTimeout cb s) = socket s"
  "reconnectTimer (setTimeout cb s) = reconnectTimer s"
  "stopped (setTimeout cb s) = stopped s"
  by (simp_all add: setTimeout_def)

lemma socket_inv_scheduleReconnect:
  assumes "socket_inv s" "list_all (\<lambda>st. st = CLOSED) (sockets s)"
  shows "socket_inv (scheduleReconnect s)"
proof (cases "reconnectTimer s \<noteq> None \<or> stopped s")
  case True
  with assms(1) show ?thesis by (simp add: scheduleReconnect_def)
next
  case False
  then have none: "reconnectTimer s = None" by simp
  have "list_all (\<lambda>k. reconnectTimer s = Some k) (reconnects s)"
    using assms(1) by (simp add: socket_inv_def)
  then have empty: "reconnects s = []"
    unfolding none by (cases "reconnects s") simp_all
  have "scheduleReconnect s = (setTimeout Reconnect s)\<lparr>reconnectTimer := Some (nextId s)\<rparr>"
    using False by (simp add: scheduleReconnect_def)
  then show ?thesis
    using assms by (simp add: socket_inv_def reconnects_setTimeout_reconnect empty)
qed

lemma socket_inv_connectSocket:
  assumes "socket_inv s" "list_all (\<lambda>st. st = CLOSED) (sockets s)" "reconnects s = []"
  shows "socket_inv (connectSocket s)"
proof (cases "stopped s")
  case True
  with assms(1) show ?thesis by (simp add: connectSocket_def)
next
  case False
  show ?thesis
  proof (cases "constructible s")
    case True
    have "socket_inv (s\<lparr>socket := Some (length (sockets s)), sockets := sockets s @ [CONNECTING]\<rparr>)"
      using assms by (simp add: socket_inv_def reconnects_def)
    with True False show ?thesis by (simp add: connectSocket_def)
  next
    case no: False
    let ?w = "ensureFallback (warn ''Unable to open WebSocket'' s)"
    have calm: "calm ?w s"
      by (rule calm_trans [of _ "warn ''Unable to open WebSocket'' s"]) simp_all
    have "socket_inv (scheduleReconnect ?w)"
      using socket_inv_calm [OF assms(1) calm] all_closed_calm [OF calm assms(2)]
      by (rule socket_inv_scheduleReconnect)
    with no False show ?thesis by (simp add: connectSocket_def)
  qed
qed

lemma newest_not_closed:
  assumes "socket_inv s" "i < length (sockets s)" "sockets s ! i \<noteq> CLOSED"
  shows "i = length (sockets s) - 1" and "reconnects s = []"
proof -
  have older: "list_all (\<lambda>st. st = CLOSED) (butlast (sockets s))"
    using assms(1) by (simp add: socket_inv_def)
  show i: "i = length (sockets s) - 1"
  proof (rule ccontr)
    assume "i \<noteq> length (sockets s) - 1"
    with assms(2) have "i < length (butlast (sockets s))" by simp
    with older have "butlast (sockets s) ! i = CLOSED"
      by (simp add: list_all_length)
    with \<open>i < length (butlast (sockets s))\<close> assms(3) show False
      by (simp add: nth_butlast)
  qed
  have "\<not> list_all (\<lambda>st. st = CLOSED) (sockets s)"
    using assms(2,3) by (auto simp: list_all_length)
  with assms(1) show "reconnects s = []"
    by (simp add: socket_inv_def)
qed

lemma butlast_update_last: "butlast (xs[length xs - Suc 0 := v]) = butlast xs"
  by (induction xs rule: rev_induct) simp_all

lemma socket_inv_set_newest:
  assumes "socket_inv s" "reconnects s = [] \<or> st = CLOSED"
  shows "socket_inv (set_socket (length (sockets s) - 1) st s)"
proof -
  let ?ss = "(sockets s)[length (sockets s) - 1 := st]"
  have a: "list_all (\<lambda>st. st = CLOSED) (butlast ?ss)"
    using assms(1) by (simp add: butlast_update_last socket_inv_def)
  have d: "reconnects s = [] \<or> list_all (\<lambda>st. st = CLOSED) ?ss"
  proof (cases "reconnects s = []")
    case True
    then show ?thesis by simp
  next
    case False
    with assms(2) have st: "st = CLOSED" by simp
    from False assms(1) have "list_all (\<lambda>st. st = CLOSED) (sockets s)"
      by (simp add: socket_inv_def)
    then show ?thesis
      unfolding st list_all_iff by (auto dest: set_update_subset_insert [THEN subsetD])
  qed
  show ?thesis
    using assms(1) a d by (simp add: socket_inv_def set_socket_def)
qed

lemma all_closed_set_newest:
  assumes "socket_inv s" "sockets s \<noteq> []"
  shows "list_all (\<lambda>st. st = CLOSED) (sockets (set_socket (length (sockets s) - 1) CLOSED s))"
proof -
  obtain xs x where split: "sockets s = xs @ [x]"
    using assms(2) by (cases "sockets s" rule: rev_cases) auto
  have "list_all (\<lambda>st. st = CLOSED) xs"
    using assms(1) by (simp add: socket_inv_def split)
  then show ?thesis
    by (simp add: set_socket_def split)
qed

lemma socket_inv_onclose:
  assumes "socket_inv s" "list_all (\<lambda>st. st = CLOSED) (sockets s)"
  shows "socket_inv (onclose s)"
  unfolding onclose_def
  using socket_inv_calm [OF assms(1) calm_ensureFallback]
    all_closed_calm [OF calm_ensureFallback assms(2)]
  by (rule socket_inv_scheduleReconnect)

lemma socket_inv_closed:
  assumes "socket_inv s" "i < length (sockets s)" "\<not> socket_is s i CLOSED"
  shows "socket_inv (set_socket i CLOSED s)"
    and "list_all (\<lambda>st. st = CLOSED) (sockets (set_socket i CLOSED s))"
proof -
  have open_i: "sockets s ! i \<noteq> CLOSED"
    using assms(2,3) by (simp add: socket_is_def)
  have i: "i = length (sockets s) - 1"
    using assms(1,2) open_i by (rule newest_not_closed)
  have ne: "sockets s \<noteq> []"
    using assms(2) by auto
  show "socket_inv (set_socket i CLOSED s)"
    unfolding i using assms(1) by (rule socket_inv_set_newest) simp
  show "list_all (\<lambda>st. st = CLOSED) (sockets (set_socket i CLOSED s))"
    unfolding i using assms(1) ne by (rule all_closed_set_newest)
qed

lemma removeAll_only: "set xs \<subseteq> {k} \<Longrightarrow> removeAll k xs = []"
  by (induction xs) auto

lemma socket_inv_timer:
  assumes "socket_inv s" "map_of (timers s) k = Some Reconnect"
  shows "socket_inv ((clearTimeout k s)\<lparr>reconnectTimer := None\<rparr>)"
    and "list_all (\<lambda>st. st = CLOSED) (sockets ((clearTimeout k s)\<lparr>reconnectTimer := None\<rparr>))"
    and "reconnects ((clearTimeout k s)\<lparr>reconnectTimer := None\<rparr>) = []"
proof -
  have "(k, Reconnect) \<in> set (timers s)"
    using assms(2) by (rule map_of_SomeD)
  then have k: "k \<in> set (reconnects s)"
    by (force simp: reconnects_def)
  have held: "list_all (\<lambda>j. reconnectTimer s = Some j) (reconnects s)"
    using assms(1) by (simp add: socket_inv_def)
  with k have rt: "reconnectTimer s = Some k"
    by (simp add: list_all_iff)
  from held have "set (reconnects s) \<subseteq> {k}"
    unfolding rt list_all_iff by auto
  then have "removeAll k (reconnects s) = []"
    by (rule removeAll_only)
  then show none: "reconnects ((clearTimeout k s)\<lparr>reconnectTimer := None\<rparr>) = []"
    by (simp add: reconnects_clearTimeout)
  from k assms(1) show closed:
    "list_all (\<lambda>st. st = CLOSED) (sockets ((clearTimeout k s)\<lparr>reconnectTimer := None\<rparr>))"
    by (auto simp: socket_inv_def clearTimeout_def)
  show "socket_inv ((clearTimeout k s)\<lparr>reconnectTimer := None\<rparr>)"
    using assms(1) none closed
    by (simp add: socket_inv_def) (simp add: clearTimeout_def)
qed

lemma socket_inv_clear_reconnect:
  assumes "socket_inv s"
  shows "socket_inv (case reconnectTimer s of
        Some i \<Rightarrow> (clearTimeout i s)\<lparr>reconnectTimer := None\<rparr> | None \<Rightarrow> s) \<and>
      reconnects (case reconnectTimer s of
        Some i \<Rightarrow> (clearTimeout i s)\<lparr>reconnectTimer := None\<rparr> | None \<Rightarrow> s) = []"
proof -
  have held: "list_all (\<lambda>j. reconnectTimer s = Some j) (reconnects s)"
    using assms by (simp add: socket_inv_def)
  show ?thesis
  proof (cases "reconnectTimer s")
    case None
    with held have "reconnects s = []"
      by (cases "reconnects s") simp_all
    with None assms show ?thesis by simp
  next
    case (Some i)
    from held have "set (reconnects s) \<subseteq> {i}"
      unfolding Some list_all_iff by auto
    then have "removeAll i (reconnects s) = []"
      by (rule removeAll_only)
    then have none: "reconnects ((clearTimeout i s)\<lparr>reconnectTimer := None\<rparr>) = []"
      by (simp add: reconnects_clearTimeout)
    have "socket_inv ((clearTimeout i s)\<lparr>reconnectTimer := None\<rparr>)"
      using assms none by (simp add: socket_inv_def) (simp add: clearTimeout_def)
    with none Some show ?thesis by simp
  qed
qed

lemma socket_inv_close_newest:
  assumes "socket_inv s" "reconnects s = []"
  shows "socket_inv (case socket s of Some i \<Rightarrow> close i s | None \<Rightarrow> s)"
proof (cases "socket s")
  case None
  with assms(1) show ?thesis by simp
next
  case (Some i)
  then have i: "i = length (sockets s) - 1"
    using assms(1) by (auto simp: socket_inv_def split: if_splits)
  have "socket_inv (set_socket (length (sockets s) - 1) CLOSING s)"
    using assms(1) by (rule socket_inv_set_newest) (simp add: assms(2))
  then have "socket_inv (close i s)"
    using assms(1) by (simp add: close_def i set_socket_def)
  with Some show ?thesis by simp
qed

lemma socket_inv_cleanup:
  assumes "socket_inv s"
  shows "socket_inv (cleanup s)"
proof -
  let ?s1 = "stopFallback (s\<lparr>stopped := True\<rparr>)"
  have "socket_inv (s\<lparr>stopped := True\<rparr>)"
    using assms by (simp add: socket_inv_def)
  then have "socket_inv ?s1"
    using calm_stopFallback by (rule socket_inv_calm)
  from socket_inv_clear_reconnect [OF this] show ?thesis
    unfolding cleanup_def Let_def by (intro socket_inv_close_newest) simp_all
qed

lemma socket_inv_step:
  assumes "socket_inv s" "step s e = Some s'"
  shows "socket_inv s'"
proof (cases e)
  case (SocketOpen i)
  with assms(2) have c: "socket_is s i CONNECTING" and s': "s' = onopen (set_socket i OPEN s)"
    by (simp_all split: if_splits)
  from c have lt: "i < length (sockets s)" and nc: "sockets s ! i \<noteq> CLOSED"
    by (simp_all add: socket_is_def)
  have i: "i = length (sockets s) - 1"
    using assms(1) lt nc by (rule newest_not_closed(1))
  have none: "reconnects s = []"
    using assms(1) lt nc by (rule newest_not_closed(2))
  have "socket_inv (set_socket i OPEN s)"
    unfolding i using assms(1) by (rule socket_inv_set_newest) (simp add: none)
  then show ?thesis
    unfolding s' onopen_def using calm_stopFallback by (rule socket_inv_calm)
next
  case (SocketMessage i data)
  with assms(2) have "s' = onmessage data s"
    by (simp split: if_splits)
  with assms(1) show ?thesis
    using calm_onmessage by (simp add: socket_inv_calm)
next
  case (SocketError i)
  with assms(2) have lt: "i < length (sockets s)" and o: "\<not> socket_is s i CLOSED"
    and s': "s' = onclose (onerror (set_socket i CLOSED s))"
    by (simp_all split: if_splits)
  let ?c = "set_socket i CLOSED s"
  have calm: "calm (onerror ?c) ?c"
    unfolding onerror_def by (rule calm_trans [of _ "warn ''State stream error'' ?c"]) simp_all
  show ?thesis
    unfolding s'
    using socket_inv_calm [OF socket_inv_closed(1) [OF assms(1) lt o] calm]
      all_closed_calm [OF calm socket_inv_closed(2) [OF assms(1) lt o]]
    by (rule socket_inv_onclose)
next
  case (SocketClose i)
  with assms(2) have lt: "i < length (sockets s)" and o: "\<not> socket_is s i CLOSED"
    and s': "s' = onclose (set_socket i CLOSED s)"
    by (simp_all split: if_splits)
  show ?thesis
    unfolding s' using socket_inv_closed [OF assms(1) lt o] by (rule socket_inv_onclose)
next
  case (TimerFired k)
  show ?thesis
  proof (cases "map_of (timers s) k")
    case None
    with assms(2) TimerFired show ?thesis by simp
  next
    case (Some cb)
    show ?thesis
    proof (cases cb)
      case PollState
      with assms(2) TimerFired Some have s': "s' = pollState (clearTimeout k s)"
        by simp
      have "calm s' s"
        unfolding s' by (rule calm_trans [of _ "clearTimeout k s"]) simp_all
      with assms(1) show ?thesis by (rule socket_inv_calm)
    next
      case Reconnect
      with assms(2) TimerFired Some
      have s': "s' = connectSocket ((clearTimeout k s)\<lparr>reconnectTimer := None\<rparr>)"
        by simp
      have m: "map_of (timers s) k = Some Reconnect"
        using Some Reconnect by simp
      show ?thesis
        unfolding s' using socket_inv_timer [OF assms(1) m] by (rule socket_inv_connectSocket)
    qed
  qed
next
  case (FetchResolved c v)
  with assms(2) have "s' = pollState_resumed c (Some v) s"
    by (simp split: if_splits)
  with assms(1) show ?thesis
    using calm_resumed by (simp add: socket_inv_calm)
next
  case (FetchRejected c)
  with assms(2) have "s' = pollState_resumed c None s"
    by (simp split: if_splits)
  with assms(1) show ?thesis
    using calm_resumed by (simp add: socket_inv_calm)
next
  case Detach
  with assms show ?thesis
    by (auto simp: socket_inv_cleanup)
qed

lemma socket_inv_run: "socket_inv s \<Longrightarrow> run s evs = Some s' \<Longrightarrow> socket_inv s'"
proof (induction evs arbitrary: s)
  case Nil
  then show ?case by simp
next
  case (Cons e evs)
  then show ?case
    by (auto split: option.splits dest: socket_inv_step)
qed

lemma socket_inv_start: "socket_inv (connectStateStream ok)"
  unfolding connectStateStream_def
  by (rule socket_inv_connectSocket) (simp_all add: socket_inv_def reconnects_def)

lemma requests_stopFallback:
  assumes "poll_inv s"
  shows "list_all snd (requests (stopFallback s))"
proof -
  have "poll_inv (stopFallback s)"
    using assms by (rule poll_inv_stopFallback)
  moreover have "controller (stopFallback s) = None"
    by (simp add: stopFallback_def Let_def split: option.splits)
  ultimately have "live (requests (stopFallback s)) = []"
    by (rule no_controller_none_live)
  then show ?thesis
    by (simp add: live_none)
qed

lemma detached_cleanup:
  assumes "poll_inv s" "socket_inv s"
  shows "detached (cleanup s)"
proof -
  let ?s1 = "stopFallback (s\<lparr>stopped := True\<rparr>)"
  let ?s2 = "case reconnectTimer ?s1 of
      Some i \<Rightarrow> (clearTimeout i ?s1)\<lparr>reconnectTimer := None\<rparr> | None \<Rightarrow> ?s1"
  have c1: "calm ?s1 (s\<lparr>stopped := True\<rparr>)"
    by (rule calm_stopFallback)
  have c2: "stopped ?s2 = stopped ?s1" "sockets ?s2 = sockets ?s1" "socket ?s2 = socket ?s1"
    by (cases "reconnectTimer ?s1"; simp add: clearTimeout_def)+
  have st: "stopped ?s2"
    unfolding c2 using c1 by (simp add: calm_def)
  have so: "sockets ?s2 = sockets s" "socket ?s2 = socket s"
    unfolding c2 using c1 by (simp_all add: calm_def)
  have "list_all snd (requests ?s1)"
    by (rule requests_stopFallback) (simp add: assms(1))
  then have rq: "list_all snd (requests ?s2)"
    by (cases "reconnectTimer ?s1") (simp_all add: clearTimeout_def)
  have older: "list_all (\<lambda>st. st = CLOSED) (butlast (sockets s))"
    and newest: "socket s = (if sockets s = [] then None else Some (length (sockets s) - 1))"
    using assms(2) by (simp_all add: socket_inv_def)
  have "list_all (\<lambda>st. st = CLOSING \<or> st = CLOSED)
      (sockets (case socket ?s2 of Some i \<Rightarrow> close i ?s2 | None \<Rightarrow> ?s2))"
  proof (cases "sockets s" rule: rev_cases)
    case Nil
    then show ?thesis
      using newest by (simp add: so)
  next
    case (snoc xs x)
    have xs: "list_all (\<lambda>st. st = CLOSED) xs"
      using older by (simp add: snoc)
    then have xs': "list_all (\<lambda>st. st = CLOSING \<or> st = CLOSED) xs"
      by (simp add: list_all_iff)
    have "socket ?s2 = Some (length xs)"
      using newest by (simp add: so snoc)
    then show ?thesis
      using xs' by (cases x) (simp_all add: close_def so snoc)
  qed
  moreover have "stopped (case socket ?s2 of Some i \<Rightarrow> close i ?s2 | None \<Rightarrow> ?s2)"
    using st by (cases "socket ?s2") (simp_all add: close_def)
  moreover have "list_all snd (requests (case socket ?s2 of Some i \<Rightarrow> close i ?s2 | None \<Rightarrow> ?s2))"
    using rq by (cases "socket ?s2") (simp_all add: close_def)
  ultimately show ?thesis
    unfolding detached_def cleanup_def Let_def by blast
qed

text \<open>
  After the returned \<open>cleanup\<close> has run, whatever the host does next, the listener is
  not invoked again: the session stays stopped with no open socket and no request that
  can resolve.
\<close>

lemma listener_silent_after_detach:
  assumes "run (connectStateStream ok) evs = Some s" "run (cleanup s) evs' = Some s'"
  shows "delivered s' = delivered s"
proof -
  have "poll_inv s"
    using poll_inv_start assms(1) by (rule poll_inv_run)
  moreover have "socket_inv s"
    using socket_inv_start assms(1) by (rule socket_inv_run)
  ultimately have "detached (cleanup s)"
    by (rule detached_cleanup)
  from detached_run [OF this assms(2)] show ?thesis
    by simp
qed

end
